theory Spec2Isabelle
  imports Complex_Main "HOL-Library.Dlist"
begin

section \<open>Data model (types.ts)\<close>

text \<open>
  The interfaces of the front end. A JavaScript \<open>number\<close> that holds a sharpness score or a
  time is a \<^typ>\<open>real\<close> (finite, no NaN: the scorer produces variances); a \<open>number\<close> that
  holds a count, an index or a slider value is an \<^typ>\<open>int\<close>. An optional field is an
  \<open>option\<close>.
\<close>

record VideoInfo =
  duration :: real
  fps :: real
  width :: int
  height :: int
  total_frames :: int

record FrameData =
  frame_number :: int
  timestamp :: real
  sharpness :: real
  path :: "string option"

record AnalysisResult =
  video_info :: VideoInfo
  frames :: "FrameData list"
  suggested_threshold :: real
  suggested_frame_count :: int

datatype SelectionMode = Threshold | Batch | BestN | TopPercentage | Manual

record SelectionSettings =
  mode :: SelectionMode
  batchSize :: int
  batchBuffer :: int
  bestN :: int
  topPercentage :: int

text \<open>
  The React state that \<open>getSelectedFrameIndices\<close> reads (App.tsx, the \<open>useState\<close> hooks of
  \<open>App\<close>). \<open>manuallySelectedFrames\<close> is a \<open>Set<number>\<close>: a collection without duplicates
  that iterates in insertion order, which is a distinct list.
\<close>

record AppState =
  analysisResult :: "AnalysisResult option"
  threshold :: real
  maxFrames :: "int option"
  minFrameDistance :: int
  selectionMode :: SelectionMode
  selectionSettings :: SelectionSettings
  manuallySelectedFrames :: "int dlist"

section \<open>The array operations the selection uses\<close>

text \<open>
  \<open>Array.prototype.slice(start, end)\<close>: a negative bound counts from the end of the array,
  both bounds are clamped to the array, and an empty range gives the empty array.
\<close>

definition slice :: "'a list \<Rightarrow> int \<Rightarrow> int \<Rightarrow> 'a list" where
  "slice xs start fin =
     (let len = int (length xs);
          k = (if start < 0 then max (len + start) 0 else min start len);
          final = (if fin < 0 then max (len + fin) 0 else min fin len)
      in take (nat (final - k)) (drop (nat k) xs))"

text \<open>
  \<open>Array.prototype.sort(compareFn)\<close> is stable, and puts \<open>a\<close> before \<open>b\<close> when
  \<open>compareFn(a, b) < 0\<close>. For a comparator that is a total preorder every stable sort
  returns the same array, so the model is the stable insertion sort.
\<close>

fun insert_cmp :: "('a \<Rightarrow> 'a \<Rightarrow> 'b::{zero,linorder}) \<Rightarrow> 'a \<Rightarrow> 'a list \<Rightarrow> 'a list" where
  "insert_cmp compareFn x [] = [x]"
| "insert_cmp compareFn x (y # ys) =
     (if compareFn x y \<le> 0 then x # y # ys else y # insert_cmp compareFn x ys)"

definition sort_cmp :: "('a \<Rightarrow> 'a \<Rightarrow> 'b::{zero,linorder}) \<Rightarrow> 'a list \<Rightarrow> 'a list" where
  "sort_cmp compareFn xs = foldr (insert_cmp compareFn) xs []"

text \<open>\<open>Math.max(...xs)\<close>; \<open>None\<close> is the \<open>-Infinity\<close> of the empty argument list.\<close>

fun Math_max :: "real list \<Rightarrow> real option" where
  "Math_max [] = None"
| "Math_max (x # xs) = Some (fold max xs x)"

text \<open>\<open>Array.prototype.indexOf\<close>: the first position of the value, \<open>-1\<close> when absent.\<close>

fun indexOf :: "'a list \<Rightarrow> 'a \<Rightarrow> int" where
  "indexOf [] v = -1"
| "indexOf (x # xs) v =
     (if x = v then 0 else (let r = indexOf xs v in if r < 0 then -1 else r + 1))"

text \<open>\<open>xs.map((x, idx) => ...)\<close>: every element with its position.\<close>

definition with_idx :: "'a list \<Rightarrow> ('a \<times> int) list" where
  "with_idx xs = zip xs (map int [0..<length xs])"

text \<open>\<open>xs[idx]\<close>: \<open>undefined\<close> (here \<open>None\<close>) outside the array.\<close>

definition at_index :: "'a list \<Rightarrow> int \<Rightarrow> 'a option" where
  "at_index xs idx = (if 0 \<le> idx \<and> idx < int (length xs) then Some (xs ! nat idx) else None)"

section \<open>getSelectedFrameIndices (App.tsx)\<close>

subsection \<open>case 'manual'\<close>

definition select_manual :: "int dlist \<Rightarrow> int list" where
  "select_manual manual = sort_cmp (\<lambda>a b. a - b) (list_of_dlist manual)"

subsection \<open>case 'batch'\<close>

text \<open>
  The \<open>while\<close> loop. Nothing in the source bounds it: with \<open>batchSize = 0\<close> and
  \<open>batchBuffer = 0\<close> the position never advances. Not returning is the value \<open>None\<close>.
\<close>

partial_function (option) batch_loop ::
    "real list \<Rightarrow> int \<Rightarrow> int \<Rightarrow> int \<Rightarrow> int list \<Rightarrow> int list option" where
  "batch_loop sharpnessScores bSize bBuffer i selected =
     (if i < int (length sharpnessScores) then
        (let batchEnd = min (i + bSize) (int (length sharpnessScores));
             batchScores = slice sharpnessScores i batchEnd;
             maxIdx = (case Math_max batchScores of
                         None \<Rightarrow> -1
                       | Some m \<Rightarrow> indexOf batchScores m)
         in batch_loop sharpnessScores bSize bBuffer (batchEnd + bBuffer) (selected @ [i + maxIdx]))
      else Some selected)"

declare batch_loop.simps [code]

definition select_batch :: "real list \<Rightarrow> int \<Rightarrow> int \<Rightarrow> int list option" where
  "select_batch sharpnessScores bSize bBuffer =
     (case batch_loop sharpnessScores bSize bBuffer 0 [] of
        None \<Rightarrow> None
      | Some selected \<Rightarrow> Some (sort_cmp (\<lambda>a b. a - b) selected))"

subsection \<open>case 'bestN'\<close>

definition select_bestN :: "real list \<Rightarrow> int \<Rightarrow> int list" where
  "select_bestN sharpnessScores n =
     (let indexed = with_idx sharpnessScores;
          indexed' = sort_cmp (\<lambda>a b. fst b - fst a) indexed
      in sort_cmp (\<lambda>a b. a - b) (map snd (slice indexed' 0 n)))"

subsection \<open>case 'topPercentage'\<close>

text \<open>
  \<open>Math.ceil(length * topPercentage / 100)\<close>. The product of two integers of this size is
  exact in a double, and its quotient by 100 is either an integer or further from one than
  the rounding error, so the ceiling is the exact one.
\<close>

definition percentage_count :: "nat \<Rightarrow> int \<Rightarrow> int" where
  "percentage_count len pct = \<lceil>real_of_int (int len * pct) / 100\<rceil>"

definition select_topPercentage :: "nat \<Rightarrow> real list \<Rightarrow> int \<Rightarrow> int list" where
  "select_topPercentage len sharpnessScores pct =
     (let count = percentage_count len pct;
          indexed = with_idx sharpnessScores;
          indexed' = sort_cmp (\<lambda>a b. fst b - fst a) indexed
      in sort_cmp (\<lambda>a b. a - b) (map snd (slice indexed' 0 count)))"

subsection \<open>case 'threshold' (and default)\<close>

text \<open>
  The \<open>for\<close> loop of the distance filter, with its two variables \<open>selectedFrames\<close> and
  \<open>lastSelected\<close> (\<open>null\<close> is \<open>None\<close>).
\<close>

fun distance_loop ::
    "int \<Rightarrow> (FrameData \<times> int) list \<Rightarrow> (FrameData \<times> int) list \<Rightarrow> int option
      \<Rightarrow> (FrameData \<times> int) list" where
  "distance_loop d [] selectedFrames lastSelected = selectedFrames"
| "distance_loop d (frame # rest) selectedFrames lastSelected =
     (if (case lastSelected of None \<Rightarrow> True | Some l \<Rightarrow> snd frame - l \<ge> d)
      then distance_loop d rest (selectedFrames @ [frame]) (Some (snd frame))
      else distance_loop d rest selectedFrames lastSelected)"

text \<open>\<open>maxFrames && length > maxFrames\<close>: \<open>undefined\<close> and \<open>0\<close> are both falsy.\<close>

definition max_frames_applies :: "int option \<Rightarrow> nat \<Rightarrow> bool" where
  "max_frames_applies mf len =
     (case mf of None \<Rightarrow> False | Some m \<Rightarrow> m \<noteq> 0 \<and> int len > m)"

definition select_threshold :: "FrameData list \<Rightarrow> real \<Rightarrow> int \<Rightarrow> int option \<Rightarrow> int list" where
  "select_threshold fs thr minDist mf =
     (let framesAboveThreshold = filter (\<lambda>f. sharpness (fst f) \<ge> thr) (with_idx fs);
          framesAboveThreshold' =
            (if minDist > 1 then distance_loop minDist framesAboveThreshold [] None
             else framesAboveThreshold)
      in if max_frames_applies mf (length framesAboveThreshold')
         then sort_cmp (\<lambda>a b. a - b)
                (map snd (slice (sort_cmp (\<lambda>a b. sharpness (fst b) - sharpness (fst a))
                                   framesAboveThreshold') 0 (the mf)))
         else sort_cmp (\<lambda>a b. a - b) (map snd framesAboveThreshold'))"

subsection \<open>The function\<close>

definition getSelectedFrameIndices :: "AppState \<Rightarrow> int list option" where
  "getSelectedFrameIndices st =
     (case analysisResult st of
        None \<Rightarrow> Some []
      | Some res \<Rightarrow>
          (let sharpnessScores = map sharpness (frames res)
           in case selectionMode st of
                Manual \<Rightarrow> Some (select_manual (manuallySelectedFrames st))
              | Batch \<Rightarrow> select_batch sharpnessScores (batchSize (selectionSettings st))
                           (batchBuffer (selectionSettings st))
              | BestN \<Rightarrow> Some (select_bestN sharpnessScores (bestN (selectionSettings st)))
              | TopPercentage \<Rightarrow>
                  Some (select_topPercentage (length (frames res)) sharpnessScores
                          (topPercentage (selectionSettings st)))
              | Threshold \<Rightarrow>
                  Some (select_threshold (frames res) (threshold st) (minFrameDistance st)
                          (maxFrames st))))"

section \<open>exportFrames: the frames handed to the backend\<close>

text \<open>\<open>selectedIndices.map(idx => analysisResult.frames[idx])\<close>\<close>

definition customResult_frames :: "AnalysisResult \<Rightarrow> int list \<Rightarrow> FrameData option list" where
  "customResult_frames res selectedIndices = map (at_index (frames res)) selectedIndices"

section \<open>The state after mounting, and example inputs\<close>

text \<open>The initial values of the \<open>useState\<close> hooks (the state \<open>handleReset\<close> restores).\<close>

definition initial_state :: AppState where
  "initial_state =
     \<lparr>analysisResult = None, threshold = 0, maxFrames = None, minFrameDistance = 1,
      selectionMode = Threshold,
      selectionSettings = \<lparr>mode = Threshold, batchSize = 3, batchBuffer = 1, bestN = 50,
                             topPercentage = 10\<rparr>,
      manuallySelectedFrames = Dlist.empty\<rparr>"

text \<open>An analysis result with the given sharpness scores, sampled at every frame of a 30 fps video.\<close>

definition analysis_of :: "real list \<Rightarrow> AnalysisResult" where
  "analysis_of scores =
     \<lparr>video_info = \<lparr>duration = real (length scores) / 30, fps = 30, width = 1920, height = 1080,
                     total_frames = int (length scores)\<rparr>,
      frames = map (\<lambda>(s, i). \<lparr>frame_number = i, timestamp = real_of_int i / 30, sharpness = s,
                               path = None\<rparr>) (with_idx scores),
      suggested_threshold = 0, suggested_frame_count = 0\<rparr>"

section \<open>The selection policies as the specification words them\<close>

text \<open>
  Frame \<open>i\<close> ranks above frame \<open>j\<close>: it has the higher score, or the same score and the
  lower index.
\<close>

definition outranks :: "real list \<Rightarrow> int \<Rightarrow> int \<Rightarrow> bool" where
  "outranks scores i j \<longleftrightarrow>
     scores ! nat j < scores ! nat i \<or> (scores ! nat j = scores ! nat i \<and> i < j)"

text \<open>The order that sorting by \<open>b.score - a.score\<close> produces on indexed items.\<close>

definition before :: "('a \<Rightarrow> real) \<Rightarrow> ('a \<times> int) \<Rightarrow> ('a \<times> int) \<Rightarrow> bool" where
  "before g a b \<longleftrightarrow> g (fst a) > g (fst b) \<or> (g (fst a) = g (fst b) \<and> snd a < snd b)"

subsection \<open>Threshold\<close>

text \<open>The frames whose sharpness is at least the threshold, in index order.\<close>

definition passing :: "FrameData list \<Rightarrow> real \<Rightarrow> int list" where
  "passing fs thr = filter (\<lambda>i. sharpness (fs ! nat i) \<ge> thr) (map int [0..<length fs])"

text \<open>
  The greedy scan: a candidate is kept only when its index is at least \<open>d\<close> past the last
  kept index \<open>l\<close>; the first candidate is always kept.
\<close>

fun keep_spaced :: "int \<Rightarrow> int \<Rightarrow> int list \<Rightarrow> int list" where
  "keep_spaced d l [] = []"
| "keep_spaced d l (c # cs) =
     (if c \<ge> l + d then c # keep_spaced d c cs else keep_spaced d l cs)"

definition spaced :: "int \<Rightarrow> int list \<Rightarrow> int list" where
  "spaced d cs = (case cs of [] \<Rightarrow> [] | c # cs' \<Rightarrow> c # keep_spaced d c cs')"

definition threshold_candidates :: "FrameData list \<Rightarrow> real \<Rightarrow> int \<Rightarrow> int list" where
  "threshold_candidates fs thr d = (if d > 1 then spaced d (passing fs thr) else passing fs thr)"

text \<open>The indexed frames that \<open>getSelectedFrameIndices\<close> holds before it applies the limit.\<close>

definition kept_frames :: "FrameData list \<Rightarrow> real \<Rightarrow> int \<Rightarrow> (FrameData \<times> int) list" where
  "kept_frames fs thr d =
     (if d > 1 then distance_loop d (filter (\<lambda>f. sharpness (fst f) \<ge> thr) (with_idx fs)) [] None
      else filter (\<lambda>f. sharpness (fst f) \<ge> thr) (with_idx fs))"

text \<open>
  \<open>r\<close> is the \<open>m\<close> candidates of highest score, in ascending index order: no candidate left
  out has a higher score than one that is kept.
\<close>

definition top_of :: "real list \<Rightarrow> int list \<Rightarrow> nat \<Rightarrow> int list \<Rightarrow> bool" where
  "top_of scores cands m r \<longleftrightarrow>
     sorted_wrt (<) r \<and> length r = m \<and> set r \<subseteq> set cands \<and>
     (\<forall>i\<in>set r. \<forall>j\<in>set cands - set r. scores ! nat j \<le> scores ! nat i)"

text \<open>
  The three steps as the specification states them, where a limit is set whenever a number
  is given for it.
\<close>

definition threshold_policy :: "FrameData list \<Rightarrow> real \<Rightarrow> int \<Rightarrow> int option \<Rightarrow> int list \<Rightarrow> bool" where
  "threshold_policy fs thr d mf r =
     (let kept = threshold_candidates fs thr d
      in case mf of
           None \<Rightarrow> r = kept
         | Some m \<Rightarrow> if int (length kept) > m then top_of (map sharpness fs) kept (nat m) r
                      else r = kept)"

subsection \<open>Batch\<close>

text \<open>
  Window \<open>k\<close> starts at \<open>k * (batch_size + batch_buffer)\<close> and holds \<open>batch_size\<close> frames,
  fewer at the end of the sequence.
\<close>

definition window_start :: "nat \<Rightarrow> nat \<Rightarrow> nat \<Rightarrow> nat" where
  "window_start bs bb k = k * (bs + bb)"

definition window_end :: "nat \<Rightarrow> nat \<Rightarrow> nat \<Rightarrow> nat \<Rightarrow> nat" where
  "window_end len bs bb k = min (k * (bs + bb) + bs) len"

definition window_count :: "nat \<Rightarrow> nat \<Rightarrow> nat \<Rightarrow> nat" where
  "window_count len bs bb = (len + bs + bb - 1) div (bs + bb)"

text \<open>
  \<open>p\<close> is the index of the maximum score among the frames \<open>s, \<dots>, e - 1\<close>, the earliest one
  when several frames reach the maximum.
\<close>

definition first_max :: "real list \<Rightarrow> nat \<Rightarrow> nat \<Rightarrow> nat \<Rightarrow> bool" where
  "first_max scores s e p \<longleftrightarrow>
     s \<le> p \<and> p < e \<and> (\<forall>j\<in>set [s..<e]. scores ! j \<le> scores ! p) \<and>
     (\<forall>j\<in>set [s..<p]. scores ! j < scores ! p)"

text \<open>Every two consecutive entries are at least \<open>d\<close> apart.\<close>

fun gaps_at_least :: "int \<Rightarrow> int list \<Rightarrow> bool" where
  "gaps_at_least d (x # y # ys) = (y - x \<ge> d \<and> gaps_at_least d (y # ys))"
| "gaps_at_least d ys = True"

section \<open>Facts about the array operations\<close>

lemma insert_cmp_int: "insert_cmp (\<lambda>a b. a - b) (x::int) ys = insort x ys"
  by (induction ys) auto

lemma sort_cmp_int: "sort_cmp (\<lambda>a b. a - b) (xs::int list) = sort xs"
  by (induction xs) (simp_all add: sort_cmp_def insert_cmp_int)

lemma set_insert_cmp: "set (insert_cmp c x ys) = insert x (set ys)"
  by (induction ys) auto

lemma set_sort_cmp: "set (sort_cmp c xs) = set xs"
  by (induction xs) (simp_all add: sort_cmp_def set_insert_cmp)

lemma length_insert_cmp: "length (insert_cmp c x ys) = Suc (length ys)"
  by (induction ys) auto

lemma length_sort_cmp: "length (sort_cmp c xs) = length xs"
  by (induction xs) (simp_all add: sort_cmp_def length_insert_cmp)

lemma distinct_map_insert_cmp:
  "distinct (map f (insert_cmp c x ys)) \<longleftrightarrow> f x \<notin> f ` set ys \<and> distinct (map f ys)"
  by (induction ys) (auto simp: set_insert_cmp)

lemma distinct_map_sort_cmp: "distinct (map f (sort_cmp c xs)) = distinct (map f xs)"
proof (induction xs)
  case Nil
  show ?case by (simp add: sort_cmp_def)
next
  case (Cons x xs)
  have "sort_cmp c (x # xs) = insert_cmp c x (sort_cmp c xs)"
    by (simp add: sort_cmp_def)
  with Cons show ?case
    by (simp add: distinct_map_insert_cmp set_sort_cmp)
qed

lemma strict_sorted_sort: "distinct (xs::int list) \<Longrightarrow> sorted_wrt (<) (sort_cmp (\<lambda>a b. a - b) xs)"
  by (simp add: sort_cmp_int strict_sorted_iff)

lemma set_slice: "set (slice xs a b) \<subseteq> set xs"
  unfolding slice_def Let_def
  by (meson set_take_subset set_drop_subset subset_trans)

lemma distinct_map_slice: "distinct (map f xs) \<Longrightarrow> distinct (map f (slice xs a b))"
  unfolding slice_def Let_def by (simp add: take_map [symmetric] drop_map [symmetric] del: take_map drop_map)

lemma slice_0: "slice xs 0 n = (if n < 0 then take (nat (int (length xs) + n)) xs else take (nat n) xs)"
  unfolding slice_def Let_def by (auto simp: min_def max_def)

lemma map_snd_with_idx: "map snd (with_idx xs) = map int [0..<length xs]"
  by (simp add: with_idx_def)

lemma map_fst_with_idx: "map fst (with_idx xs) = xs"
  by (simp add: with_idx_def)

lemma length_with_idx: "length (with_idx xs) = length xs"
  by (simp add: with_idx_def)

lemma with_idx_nth: "k < length xs \<Longrightarrow> with_idx xs ! k = (xs ! k, int k)"
  by (simp add: with_idx_def)

lemma in_with_idx: "(x, i) \<in> set (with_idx xs) \<longleftrightarrow> 0 \<le> i \<and> i < int (length xs) \<and> x = xs ! nat i"
  unfolding with_idx_def in_set_zip
  by (auto intro!: exI[of _ "nat i"])

lemma strict_idx_with_idx: "sorted_wrt (<) (map snd (with_idx xs))"
  by (simp add: map_snd_with_idx sorted_wrt_map sorted_wrt_iff_nth_less)

lemma distinct_idx_with_idx: "distinct (map snd (with_idx xs))"
  using strict_idx_with_idx strict_sorted_iff by blast

section \<open>Sorting by descending score is stable\<close>

lemma before_trans: "before g a b \<Longrightarrow> before g b c \<Longrightarrow> before g a c"
  unfolding before_def by auto

lemma sorted_insert_cmp_desc:
  assumes "sorted_wrt (before g) ys" and "\<forall>y\<in>set ys. snd x < snd y"
  shows "sorted_wrt (before g) (insert_cmp (\<lambda>a b. g (fst b) - g (fst a)) x ys)"
  using assms
proof (induction ys)
  case Nil
  show ?case by simp
next
  case (Cons y ys)
  show ?case
  proof (cases "g (fst y) - g (fst x) \<le> 0")
    case True
    then have xy: "before g x y"
      using Cons.prems(2) by (auto simp: before_def)
    have "\<forall>z\<in>set ys. before g y z"
      using Cons.prems(1) by simp
    then have "\<forall>z\<in>set ys. before g x z"
      using xy before_trans by blast
    with True xy Cons.prems(1) show ?thesis by simp
  next
    case False
    then have yx: "before g y x"
      by (simp add: before_def)
    have "sorted_wrt (before g) (insert_cmp (\<lambda>a b. g (fst b) - g (fst a)) x ys)"
      using Cons by simp
    with False yx Cons.prems(1) show ?thesis
      by (simp add: set_insert_cmp)
  qed
qed

lemma sorted_sort_cmp_desc:
  "sorted_wrt (<) (map snd xs) \<Longrightarrow>
   sorted_wrt (before g) (sort_cmp (\<lambda>a b. g (fst b) - g (fst a)) xs)"
proof (induction xs)
  case Nil
  show ?case by (simp add: sort_cmp_def)
next
  case (Cons x xs)
  have step: "sort_cmp (\<lambda>a b. g (fst b) - g (fst a)) (x # xs)
      = insert_cmp (\<lambda>a b. g (fst b) - g (fst a)) x (sort_cmp (\<lambda>a b. g (fst b) - g (fst a)) xs)"
    by (simp add: sort_cmp_def)
  have "\<forall>y\<in>set xs. snd x < snd y"
    using Cons.prems by auto
  then have "\<forall>y\<in>set (sort_cmp (\<lambda>a b. g (fst b) - g (fst a)) xs). snd x < snd y"
    by (simp add: set_sort_cmp)
  moreover have "sorted_wrt (before g) (sort_cmp (\<lambda>a b. g (fst b) - g (fst a)) xs)"
    using Cons by simp
  ultimately show ?case
    unfolding step by (rule sorted_insert_cmp_desc [rotated])
qed

text \<open>The first n of a list sorted that way beat the rest.\<close>
lemma take_beats_rest:
  assumes "sorted_wrt (before g) ys" and "a \<in> set (take n ys)" and "b \<in> set ys"
    and "b \<notin> set (take n ys)"
  shows "before g a b"
proof -
  have "b \<in> set (drop n ys)"
    using assms(3,4) by (metis Un_iff append_take_drop_id set_append)
  moreover have "sorted_wrt (before g) (take n ys @ drop n ys)"
    using assms(1) by simp
  ultimately show ?thesis
    using assms(2) unfolding sorted_wrt_append by blast
qed

lemma top_slice:
  fixes xs :: "('a \<times> int) list" and g :: "'a \<Rightarrow> real" and n :: int
  assumes idx: "sorted_wrt (<) (map snd xs)"
  defines "ys \<equiv> sort_cmp (\<lambda>a b. g (fst b) - g (fst a)) xs"
  defines "r \<equiv> sort_cmp (\<lambda>a b. a - b) (map snd (slice ys 0 n))"
  shows top_slice_sorted: "sorted_wrt (<) r"
    and top_slice_subset: "set r \<subseteq> snd ` set xs"
    and top_slice_length: "0 \<le> n \<Longrightarrow> length r = min (nat n) (length xs)"
    and top_slice_beats: "\<And>a b. a \<in> set xs \<Longrightarrow> b \<in> set xs \<Longrightarrow> snd a \<in> set r \<Longrightarrow> snd b \<notin> set r
            \<Longrightarrow> before g a b"
    and top_slice_all: "int (length xs) \<le> n \<Longrightarrow> r = map snd xs"
proof -
  have dist: "distinct (map snd xs)"
    using idx strict_sorted_iff by blast
  then have dist_ys: "distinct (map snd ys)"
    by (simp add: ys_def distinct_map_sort_cmp)
  have set_ys: "set ys = set xs"
    by (simp add: ys_def set_sort_cmp)
  have set_r: "set r = snd ` set (slice ys 0 n)"
    by (simp add: r_def set_sort_cmp)
  show "sorted_wrt (<) r"
    unfolding r_def by (rule strict_sorted_sort) (rule distinct_map_slice [OF dist_ys])
  show "set r \<subseteq> snd ` set xs"
    using set_slice [of ys 0 n] by (auto simp: set_r set_ys)
  show "length r = min (nat n) (length xs)" if "0 \<le> n"
    using that by (simp add: r_def length_sort_cmp slice_0 ys_def)
  have "\<exists>k. slice ys 0 n = take k ys"
    by (cases "n < 0") (auto simp: slice_0)
  then obtain k where k: "slice ys 0 n = take k ys" ..
  have sorted_ys: "sorted_wrt (before g) ys"
    unfolding ys_def by (rule sorted_sort_cmp_desc [OF idx])
  show "before g a b" if "a \<in> set xs" "b \<in> set xs" "snd a \<in> set r" "snd b \<notin> set r" for a b
  proof -
    from that(3) obtain a' where a': "a' \<in> set (take k ys)" "snd a' = snd a"
      by (auto simp: set_r k)
    then have "a' \<in> set xs"
      using set_ys set_take_subset [of k ys] by auto
    with a'(2) that(1) dist have "a' = a"
      by (meson distinct_map inj_onD)
    with a'(1) have "a \<in> set (take k ys)" by simp
    moreover have "b \<in> set ys" using that(2) set_ys by simp
    moreover have "b \<notin> set (take k ys)"
      using that(4) by (auto simp: set_r k)
    ultimately show ?thesis
      using sorted_ys by (meson take_beats_rest)
  qed
  show "r = map snd xs" if "int (length xs) \<le> n"
  proof -
    have "slice ys 0 n = ys"
      using that by (simp add: slice_0 ys_def length_sort_cmp)
    then have "r = sort (map snd ys)"
      by (simp add: r_def sort_cmp_int)
    moreover have "set (map snd ys) = set (map snd xs)"
      by (simp add: set_ys)
    ultimately have "r = sorted_list_of_set (set (map snd xs))"
      using dist_ys by (metis sorted_list_of_set_sort_remdups distinct_remdups_id)
    also have "\<dots> = map snd xs"
      using idx by (metis dist idx sorted_list_of_set_sort_remdups distinct_remdups_id sorted_sort_id strict_sorted_iff)
    finally show ?thesis .
  qed
qed

section \<open>Threshold mode\<close>

lemma with_idx_map: "with_idx xs = map (\<lambda>i. (xs ! nat i, i)) (map int [0..<length xs])"
  by (rule nth_equalityI) (simp_all add: with_idx_def)

lemma idx_filter_with_idx: "sorted_wrt (<) (map snd (filter P (with_idx xs)))"
  using strict_idx_with_idx [of xs] sorted_wrt_filter
  by (metis sorted_wrt_map)

lemma above_threshold_passing:
  "map snd (filter (\<lambda>f. sharpness (fst f) \<ge> thr) (with_idx fs)) = passing fs thr"
  by (simp add: with_idx_map passing_def filter_map o_def)

lemma set_distance_loop: "set (distance_loop d xs acc l) \<subseteq> set acc \<union> set xs"
proof (induction xs arbitrary: acc l)
  case Nil
  show ?case by simp
next
  case (Cons x xs)
  have "set (distance_loop d xs (acc @ [x]) (Some (snd x))) \<subseteq> set acc \<union> set (x # xs)"
    using Cons [of "acc @ [x]" "Some (snd x)"] by auto
  moreover have "set (distance_loop d xs acc l) \<subseteq> set acc \<union> set (x # xs)"
    using Cons [of acc l] by auto
  ultimately show ?case by simp
qed

lemma distance_loop_Some:
  "map snd (distance_loop d xs acc (Some l)) = map snd acc @ keep_spaced d l (map snd xs)"
  by (induction xs arbitrary: acc l) auto

lemma distance_loop_None:
  "map snd (distance_loop d xs [] None) = spaced d (map snd xs)"
  by (cases xs) (simp_all add: spaced_def distance_loop_Some)

lemma set_keep_spaced: "set (keep_spaced d l cs) \<subseteq> set cs"
  by (induction cs arbitrary: l) auto

lemma sorted_keep_spaced: "sorted_wrt (<) cs \<Longrightarrow> sorted_wrt (<) (keep_spaced d l cs)"
proof (induction cs arbitrary: l)
  case Nil
  show ?case by simp
next
  case (Cons c cs)
  then show ?case
    using set_keep_spaced [of d c cs] by auto
qed

lemma set_spaced: "set (spaced d cs) \<subseteq> set cs"
  using set_keep_spaced by (fastforce simp: spaced_def split: list.splits)

lemma sorted_spaced: "sorted_wrt (<) cs \<Longrightarrow> sorted_wrt (<) (spaced d cs)"
  using set_keep_spaced sorted_keep_spaced
  by (fastforce simp: spaced_def split: list.splits)

lemma spaced_Nil_iff: "spaced d cs = [] \<longleftrightarrow> cs = []"
  by (simp add: spaced_def split: list.splits)

lemma sorted_passing: "sorted_wrt (<) (passing fs thr)"
  unfolding above_threshold_passing [symmetric] by (rule idx_filter_with_idx)

lemma set_passing:
  "set (passing fs thr) = {i. 0 \<le> i \<and> i < int (length fs) \<and> sharpness (fs ! nat i) \<ge> thr}"
  by (auto simp: passing_def image_int_atLeastLessThan)

lemma sorted_threshold_candidates: "sorted_wrt (<) (threshold_candidates fs thr d)"
  by (simp add: threshold_candidates_def sorted_passing sorted_spaced)

lemma set_threshold_candidates: "set (threshold_candidates fs thr d) \<subseteq> set (passing fs thr)"
  by (simp add: threshold_candidates_def set_spaced)

lemma map_snd_kept_frames: "map snd (kept_frames fs thr d) = threshold_candidates fs thr d"
  by (simp add: kept_frames_def threshold_candidates_def distance_loop_None above_threshold_passing)

lemma set_kept_frames: "set (kept_frames fs thr d) \<subseteq> set (with_idx fs)"
  using set_distance_loop [of d "filter (\<lambda>f. sharpness (fst f) \<ge> thr) (with_idx fs)" "[]" None]
  by (auto simp: kept_frames_def)

lemma select_threshold_eq:
  "select_threshold fs thr d mf =
     (if max_frames_applies mf (length (threshold_candidates fs thr d))
      then sort_cmp (\<lambda>a b. a - b)
             (map snd (slice (sort_cmp (\<lambda>a b. sharpness (fst b) - sharpness (fst a))
                                (kept_frames fs thr d)) 0 (the mf)))
      else threshold_candidates fs thr d)"
proof -
  have len: "length (kept_frames fs thr d) = length (threshold_candidates fs thr d)"
    by (metis length_map map_snd_kept_frames)
  have "sort_cmp (\<lambda>a b. a - b) (map snd (kept_frames fs thr d)) = threshold_candidates fs thr d"
    using sorted_threshold_candidates [of fs thr d]
    by (simp add: map_snd_kept_frames sort_cmp_int strict_sorted_iff sorted_sort_id)
  then show ?thesis
    using len by (simp add: select_threshold_def kept_frames_def Let_def)
qed

lemma gsfi_threshold:
  "analysisResult st = Some res \<Longrightarrow> selectionMode st = Threshold \<Longrightarrow>
   getSelectedFrameIndices st =
     Some (select_threshold (frames res) (threshold st) (minFrameDistance st) (maxFrames st))"
  by (simp add: getSelectedFrameIndices_def)

lemma kept_frames_entry:
  assumes "a \<in> set (kept_frames fs thr d)"
  shows "fst a = fs ! nat (snd a)" and "0 \<le> snd a" and "snd a < int (length fs)"
proof -
  have "(fst a, snd a) \<in> set (with_idx fs)"
    using assms set_kept_frames by fastforce
  then show "fst a = fs ! nat (snd a)" and "0 \<le> snd a" and "snd a < int (length fs)"
    unfolding in_with_idx by simp_all
qed

lemma idx_kept_frames: "sorted_wrt (<) (map snd (kept_frames fs thr d))"
  by (simp add: map_snd_kept_frames sorted_threshold_candidates)

lemma set_select_threshold:
  "set (select_threshold fs thr d mf) \<subseteq> set (threshold_candidates fs thr d)"
proof (cases "max_frames_applies mf (length (threshold_candidates fs thr d))")
  case True
  have "set (select_threshold fs thr d mf) \<subseteq> snd ` set (kept_frames fs thr d)"
    using True top_slice_subset [OF idx_kept_frames, of sharpness fs thr d "the mf"]
    by (simp add: select_threshold_eq)
  also have "\<dots> = set (threshold_candidates fs thr d)"
    by (metis map_snd_kept_frames set_map)
  finally show ?thesis .
next
  case False
  then show ?thesis by (simp add: select_threshold_eq)
qed

lemma select_threshold_limited:
  assumes m: "1 \<le> m" "m < int (length (threshold_candidates fs thr d))"
  shows "top_of (map sharpness fs) (threshold_candidates fs thr d) (nat m)
           (select_threshold fs thr d (Some m))"
proof -
  let ?kept = "kept_frames fs thr d"
  let ?r = "select_threshold fs thr d (Some m)"
  have applies: "max_frames_applies (Some m) (length (threshold_candidates fs thr d))"
    using m by (simp add: max_frames_applies_def)
  then have r: "?r = sort_cmp (\<lambda>a b. a - b)
        (map snd (slice (sort_cmp (\<lambda>a b. sharpness (fst b) - sharpness (fst a)) ?kept) 0 m))"
    by (simp add: select_threshold_eq)
  have len_kept: "length ?kept = length (threshold_candidates fs thr d)"
    by (metis length_map map_snd_kept_frames)
  have set_kept: "snd ` set ?kept = set (threshold_candidates fs thr d)"
    by (metis map_snd_kept_frames set_map)
  have "sorted_wrt (<) ?r"
    unfolding r by (rule top_slice_sorted [OF idx_kept_frames])
  moreover have "length ?r = nat m"
    using m top_slice_length [OF idx_kept_frames, of m sharpness fs thr d]
    by (simp add: r len_kept)
  moreover have "set ?r \<subseteq> set (threshold_candidates fs thr d)"
    by (rule set_select_threshold)
  moreover have "map sharpness fs ! nat j \<le> map sharpness fs ! nat i"
    if "i \<in> set ?r" "j \<in> set (threshold_candidates fs thr d) - set ?r" for i j
  proof -
    from that(1) obtain a where a: "a \<in> set ?kept" "snd a = i"
      using set_select_threshold [of fs thr d "Some m"] set_kept by fastforce
    from that(2) obtain b where b: "b \<in> set ?kept" "snd b = j"
      using set_kept by fastforce
    have "before sharpness a b"
      using top_slice_beats [OF idx_kept_frames a(1) b(1), of sharpness m] that a(2) b(2)
      by (simp add: r)
    then have "sharpness (fst b) \<le> sharpness (fst a)"
      by (auto simp: before_def)
    then show ?thesis
      using kept_frames_entry [OF a(1)] kept_frames_entry [OF b(1)] a(2) b(2)
      by simp
  qed
  ultimately show ?thesis
    unfolding top_of_def by blast
qed

lemma select_threshold_unlimited:
  "mf = None \<or> mf = Some 0 \<or> (\<exists>m. mf = Some m \<and> int (length (threshold_candidates fs thr d)) \<le> m)
   \<Longrightarrow> select_threshold fs thr d mf = threshold_candidates fs thr d"
  by (auto simp: select_threshold_eq max_frames_applies_def)

lemma passing_Nil_iff: "passing fs thr = [] \<longleftrightarrow> (\<forall>f\<in>set fs. sharpness f < thr)"
proof -
  have "passing fs thr = [] \<longleftrightarrow> set (passing fs thr) = {}" by simp
  also have "\<dots> \<longleftrightarrow> (\<forall>k<length fs. sharpness (fs ! k) < thr)"
  proof
    assume e: "set (passing fs thr) = {}"
    show "\<forall>k<length fs. sharpness (fs ! k) < thr"
    proof (intro allI impI)
      fix k assume "k < length fs"
      then have "int k \<notin> set (passing fs thr) \<longrightarrow> sharpness (fs ! k) < thr"
        by (simp add: set_passing)
      with e show "sharpness (fs ! k) < thr" by simp
    qed
  next
    assume "\<forall>k<length fs. sharpness (fs ! k) < thr"
    then show "set (passing fs thr) = {}"
      by (auto simp: set_passing) (metis nat_less_iff not_le)
  qed
  also have "\<dots> \<longleftrightarrow> (\<forall>f\<in>set fs. sharpness f < thr)"
    by (metis in_set_conv_nth)
  finally show ?thesis .
qed

lemma threshold_candidates_Nil_iff:
  "threshold_candidates fs thr d = [] \<longleftrightarrow> (\<forall>f\<in>set fs. sharpness f < thr)"
  by (simp add: threshold_candidates_def spaced_Nil_iff passing_Nil_iff)

section \<open>Claims about Threshold mode\<close>

text \<open>
  C10. In Threshold mode every index of the returned selection, after the distance filter
  and the limit, is an index of a frame whose sharpness is at least the threshold: the
  selection is a subset of the frames that pass the threshold test.
\<close>

theorem threshold_selection_passes:
  assumes "analysisResult st = Some res" and "selectionMode st = Threshold"
  shows "\<exists>r. getSelectedFrameIndices st = Some r \<and>
           set r \<subseteq> set (passing (frames res) (threshold st)) \<and>
           (\<forall>i\<in>set r. 0 \<le> i \<and> i < int (length (frames res)) \<and>
                       sharpness (frames res ! nat i) \<ge> threshold st)"
proof -
  let ?r = "select_threshold (frames res) (threshold st) (minFrameDistance st) (maxFrames st)"
  have "set ?r \<subseteq> set (passing (frames res) (threshold st))"
    using set_select_threshold set_threshold_candidates by blast
  then show ?thesis
    using gsfi_threshold [OF assms] by (auto simp: set_passing)
qed

theorem threshold_selection_passes_witness:
  "\<exists>r. getSelectedFrameIndices
          (initial_state\<lparr>analysisResult := Some (analysis_of [1, 5, 2, 8, 3]), threshold := 4,
             minFrameDistance := 2, maxFrames := Some 1\<rparr>) = Some r \<and>
       set r \<subseteq> set (passing (frames (analysis_of [1, 5, 2, 8, 3])) 4) \<and>
       (\<forall>i\<in>set r. 0 \<le> i \<and> i < int (length (frames (analysis_of [1, 5, 2, 8, 3]))) \<and>
                   sharpness (frames (analysis_of [1, 5, 2, 8, 3]) ! nat i) \<ge> 4)"
  using threshold_selection_passes
    [of "initial_state\<lparr>analysisResult := Some (analysis_of [1, 5, 2, 8, 3]), threshold := 4,
             minFrameDistance := 2, maxFrames := Some 1\<rparr>" "analysis_of [1, 5, 2, 8, 3]"]
  by (simp add: initial_state_def)

text \<open>
  C3, as stated: with \<open>max_frames = 0\<close> the Threshold selection of a non-empty analysis
  result is empty. It is not: both frames that pass the threshold are returned.
\<close>

theorem max_frames_zero_counterexample:
  "getSelectedFrameIndices
     (initial_state\<lparr>analysisResult := Some (analysis_of [1, 5, 2, 8, 3]), threshold := 4,
        maxFrames := Some 0\<rparr>) = Some [1, 3]"
  by code_simp

text \<open>
  C3, amended. In Threshold mode \<open>max_frames = 0\<close> is the same as no limit: the selection
  is the one returned when \<open>max_frames\<close> is not set, namely every candidate that the
  threshold and the distance filter keep, and it is empty only when no frame reaches the
  threshold.
\<close>

theorem max_frames_zero_is_no_limit:
  assumes "analysisResult st = Some res" and "selectionMode st = Threshold"
    and "maxFrames st = Some 0"
  shows "getSelectedFrameIndices st = getSelectedFrameIndices (st\<lparr>maxFrames := None\<rparr>) \<and>
         getSelectedFrameIndices st =
           Some (threshold_candidates (frames res) (threshold st) (minFrameDistance st)) \<and>
         (getSelectedFrameIndices st = Some [] \<longleftrightarrow>
            (\<forall>f\<in>set (frames res). sharpness f < threshold st))"
proof -
  have "getSelectedFrameIndices st =
      Some (threshold_candidates (frames res) (threshold st) (minFrameDistance st))"
    using assms by (simp add: gsfi_threshold select_threshold_unlimited)
  moreover have "getSelectedFrameIndices (st\<lparr>maxFrames := None\<rparr>) =
      Some (threshold_candidates (frames res) (threshold st) (minFrameDistance st))"
    using assms(1,2) by (simp add: gsfi_threshold select_threshold_unlimited)
  ultimately show ?thesis
    by (simp add: threshold_candidates_Nil_iff)
qed

theorem max_frames_zero_is_no_limit_witness:
  "maxFrames (initial_state\<lparr>analysisResult := Some (analysis_of [1, 5, 2, 8, 3]), threshold := 9,
        maxFrames := Some 0\<rparr>) = Some 0 \<and>
   getSelectedFrameIndices
     (initial_state\<lparr>analysisResult := Some (analysis_of [1, 5, 2, 8, 3]), threshold := 9,
        maxFrames := Some 0\<rparr>) = Some [] \<and>
   getSelectedFrameIndices
     (initial_state\<lparr>analysisResult := Some (analysis_of [1, 5, 2, 8, 3]), threshold := 9,
        maxFrames := None\<rparr>) = Some []"
proof -
  let ?res = "analysis_of [1, 5, 2, 8, 3]"
  let ?st = "initial_state\<lparr>analysisResult := Some ?res, threshold := 9, maxFrames := Some 0\<rparr>"
  have h: "analysisResult ?st = Some ?res" "selectionMode ?st = Threshold"
    "maxFrames ?st = Some 0" "threshold ?st = 9"
    by (simp_all add: initial_state_def)
  have low: "\<forall>f\<in>set (frames ?res). sharpness f < 9"
    by (simp add: analysis_of_def with_idx_def upt_conv_Cons)
  note inst = max_frames_zero_is_no_limit [OF h(1,2,3)]
  have "getSelectedFrameIndices ?st = Some [] \<longleftrightarrow>
      (\<forall>f\<in>set (frames ?res). sharpness f < threshold ?st)"
    using inst by blast
  with low h(4) have empty: "getSelectedFrameIndices ?st = Some []"
    by simp
  moreover have "getSelectedFrameIndices ?st = getSelectedFrameIndices (?st\<lparr>maxFrames := None\<rparr>)"
    using inst by blast
  ultimately have "getSelectedFrameIndices (?st\<lparr>maxFrames := None\<rparr>) = Some []"
    by simp
  with empty h(3) show ?thesis by simp
qed

text \<open>
  C1, as stated: a limit that is set is applied whenever more candidates remain. With the
  scores \<open>[1,5,2,8,3]\<close>, threshold 4, \<open>min_distance = 1\<close> and \<open>max_frames = 0\<close> two
  candidates remain, and both are returned instead of the 0 of highest score.
\<close>

theorem threshold_steps_counterexample:
  "getSelectedFrameIndices
     (initial_state\<lparr>analysisResult := Some (analysis_of [1, 5, 2, 8, 3]), threshold := 4,
        minFrameDistance := 1, maxFrames := Some 0\<rparr>) = Some [1, 3] \<and>
   \<not> threshold_policy (frames (analysis_of [1, 5, 2, 8, 3])) 4 1 (Some 0) [1, 3]"
  by code_simp

text \<open>
  C1, amended. Threshold mode first keeps exactly the frames whose sharpness is at least
  the threshold, in index order; then, if \<open>min_distance > 1\<close>, keeps a candidate only when
  its index is at least \<open>min_distance\<close> past the last kept index (the first candidate is
  always kept); then, if \<open>max_frames\<close> is set to a value of at least 1 and more candidates
  remain, keeps the \<open>max_frames\<close> candidates of highest score and returns them in ascending
  index order. With \<open>max_frames = 0\<close> no limit is applied. For the scores \<open>[1,5,2,8,3]\<close>
  with threshold 4 the selection is \<open>[1,3]\<close> for \<open>min_distance = 1\<close> and \<open>[1]\<close> for
  \<open>min_distance = 3\<close>.
\<close>

theorem threshold_steps:
  "(\<forall>(st::AppState) res. analysisResult st = Some res \<and> selectionMode st = Threshold \<and>
       (maxFrames st = None \<or> (\<exists>m\<ge>1. maxFrames st = Some m)) \<longrightarrow>
       (\<exists>r. getSelectedFrameIndices st = Some r \<and>
            threshold_policy (frames res) (threshold st) (minFrameDistance st) (maxFrames st) r)) \<and>
   (\<forall>(st::AppState) res. analysisResult st = Some res \<and> selectionMode st = Threshold \<and>
       maxFrames st = Some 0 \<longrightarrow>
       getSelectedFrameIndices st =
         Some (threshold_candidates (frames res) (threshold st) (minFrameDistance st))) \<and>
   getSelectedFrameIndices
     (initial_state\<lparr>analysisResult := Some (analysis_of [1, 5, 2, 8, 3]), threshold := 4,
        minFrameDistance := 1\<rparr>) = Some [1, 3] \<and>
   getSelectedFrameIndices
     (initial_state\<lparr>analysisResult := Some (analysis_of [1, 5, 2, 8, 3]), threshold := 4,
        minFrameDistance := 3\<rparr>) = Some [1]"
proof (intro conjI allI impI)
  fix st :: AppState and res :: AnalysisResult
  assume a: "analysisResult st = Some res \<and> selectionMode st = Threshold \<and>
       (maxFrames st = None \<or> (\<exists>m\<ge>1. maxFrames st = Some m))"
  let ?fs = "frames res" and ?thr = "threshold st" and ?d = "minFrameDistance st"
  have r: "getSelectedFrameIndices st = Some (select_threshold ?fs ?thr ?d (maxFrames st))"
    using a by (simp add: gsfi_threshold)
  have "threshold_policy ?fs ?thr ?d (maxFrames st) (select_threshold ?fs ?thr ?d (maxFrames st))"
  proof (cases "maxFrames st")
    case None
    then show ?thesis
      by (simp add: threshold_policy_def select_threshold_unlimited)
  next
    case (Some m)
    with a have m: "1 \<le> m" by auto
    show ?thesis
    proof (cases "m < int (length (threshold_candidates ?fs ?thr ?d))")
      case True
      then show ?thesis
        using select_threshold_limited [OF m True] Some by (simp add: threshold_policy_def)
    next
      case False
      then have "select_threshold ?fs ?thr ?d (Some m) = threshold_candidates ?fs ?thr ?d"
        by (intro select_threshold_unlimited) simp
      with False Some show ?thesis
        by (simp add: threshold_policy_def)
    qed
  qed
  with r show "\<exists>r. getSelectedFrameIndices st = Some r \<and>
      threshold_policy ?fs ?thr ?d (maxFrames st) r"
    by blast
next
  fix st :: AppState and res :: AnalysisResult
  assume "analysisResult st = Some res \<and> selectionMode st = Threshold \<and> maxFrames st = Some 0"
  then show "getSelectedFrameIndices st =
      Some (threshold_candidates (frames res) (threshold st) (minFrameDistance st))"
    by (simp add: gsfi_threshold select_threshold_unlimited)
next
  show "getSelectedFrameIndices
     (initial_state\<lparr>analysisResult := Some (analysis_of [1, 5, 2, 8, 3]), threshold := 4,
        minFrameDistance := 1\<rparr>) = Some [1, 3]"
    by code_simp
next
  show "getSelectedFrameIndices
     (initial_state\<lparr>analysisResult := Some (analysis_of [1, 5, 2, 8, 3]), threshold := 4,
        minFrameDistance := 3\<rparr>) = Some [1]"
    by code_simp
qed

theorem threshold_steps_witness:
  "getSelectedFrameIndices
     (initial_state\<lparr>analysisResult := Some (analysis_of [1, 5, 2, 8, 3]), threshold := 2,
        minFrameDistance := 2, maxFrames := Some 1\<rparr>) = Some [3] \<and>
   threshold_policy (frames (analysis_of [1, 5, 2, 8, 3])) 2 2 (Some 1) [3]"
proof -
  let ?res = "analysis_of [1, 5, 2, 8, 3]"
  let ?st = "initial_state\<lparr>analysisResult := Some ?res, threshold := 2, minFrameDistance := 2,
      maxFrames := Some 1\<rparr>"
  have h: "analysisResult ?st = Some ?res \<and> selectionMode ?st = Threshold \<and>
       (maxFrames ?st = None \<or> (\<exists>m\<ge>1. maxFrames ?st = Some m))"
    by (simp add: initial_state_def)
  have "\<exists>r. getSelectedFrameIndices ?st = Some r \<and>
      threshold_policy (frames ?res) (threshold ?st) (minFrameDistance ?st) (maxFrames ?st) r"
    using threshold_steps h by blast
  moreover have "getSelectedFrameIndices ?st = Some [3]"
    by code_simp
  ultimately show ?thesis
    by (simp add: initial_state_def)
qed

section \<open>Batch mode\<close>

lemma indexOf_first:
  "v \<in> set xs \<Longrightarrow> \<exists>p<length xs. indexOf xs v = int p \<and> xs ! p = v \<and> (\<forall>j<p. xs ! j \<noteq> v)"
proof (induction xs)
  case Nil
  then show ?case by simp
next
  case (Cons x xs)
  show ?case
  proof (cases "x = v")
    case True
    then show ?thesis by (intro exI [of _ 0]) simp
  next
    case False
    with Cons obtain p where p: "p < length xs" "indexOf xs v = int p" "xs ! p = v"
      "\<forall>j<p. xs ! j \<noteq> v"
      by auto
    have "\<forall>j<Suc p. (x # xs) ! j \<noteq> v"
      using False p(4) by (auto simp: nth_Cons split: nat.splits)
    with False p show ?thesis
      by (intro exI [of _ "Suc p"]) (simp add: Let_def)
  qed
qed

lemma Math_max_Max:
  assumes "xs \<noteq> []"
  shows "Math_max xs = Some (Max (set xs))"
proof (cases xs)
  case Nil
  with assms show ?thesis by simp
next
  case (Cons x ys)
  then show ?thesis
    using Max.set_eq_fold [of x ys] by simp
qed

lemma window_pick:
  assumes "w \<noteq> []"
  shows "\<exists>p<length w. (case Math_max w of None \<Rightarrow> -1 | Some m \<Rightarrow> indexOf w m) = int p \<and>
           (\<forall>j<length w. w ! j \<le> w ! p) \<and> (\<forall>j<p. w ! j < w ! p)"
proof -
  let ?m = "Max (set w)"
  have "?m \<in> set w"
    using assms by (simp add: Max_in)
  from indexOf_first [OF this]
  obtain p where p: "p < length w" "indexOf w ?m = int p" "w ! p = ?m" "\<forall>j<p. w ! j \<noteq> ?m"
    by (elim exE conjE)
  have le: "w ! j \<le> ?m" if "j < length w" for j
    using that by (intro Max_ge) simp_all
  have lt: "w ! j < w ! p" if "j < p" for j
  proof -
    have "j < length w" using that p(1) by (rule less_trans)
    then have "w ! j \<le> ?m" by (rule le)
    moreover have "w ! j \<noteq> ?m" using that p(4) by blast
    ultimately have "w ! j < ?m" by (rule order.not_eq_order_implies_strict [rotated])
    then show ?thesis by (simp only: p(3))
  qed
  have pick: "(case Math_max w of None \<Rightarrow> -1 | Some m \<Rightarrow> indexOf w m) = int p"
    by (simp only: Math_max_Max [OF assms] option.case p(2))
  have "\<forall>j<length w. w ! j \<le> w ! p"
    using le by (simp only: p(3)) blast
  with p(1) pick lt show ?thesis
    by blast
qed

lemma slice_window:
  "i \<le> e \<Longrightarrow> e \<le> length xs \<Longrightarrow> slice xs (int i) (int e) = take (e - i) (drop i xs)"
  by (simp add: slice_def Let_def min_def nat_diff_distrib')

lemma window_count_step:
  fixes n c :: nat
  assumes "0 < n" and "0 < c"
  shows "Suc ((n - c + c - 1) div c) = (n + c - 1) div c"
proof -
  have split: "n + c - 1 = (n - 1) + c"
    using assms by simp
  have rhs: "(n + c - 1) div c = Suc ((n - 1) div c)"
  proof -
    have "((n - 1) + c) div c = Suc ((n - 1) div c)"
      using assms(2) by simp
    then show ?thesis by (simp only: split)
  qed
  show ?thesis
  proof (cases "c \<le> n")
    case True
    then have "n - c + c - 1 = n - 1" by simp
    then show ?thesis unfolding rhs by (simp only:)
  next
    case False
    then have "n - c + c - 1 = c - 1" by simp
    moreover have "(c - 1) div c = 0" using assms by simp
    moreover have "(n - 1) div c = 0" using False assms by simp
    ultimately show ?thesis unfolding rhs by (simp only:)
  qed
qed


text \<open>One pass of the loop body at position \<open>i\<close>: the window and its pick.\<close>

lemma batch_loop_step:
  assumes "i < length scores" and "0 < bs"
  shows "\<exists>p. first_max scores i (min (i + bs) (length scores)) p \<and>
           batch_loop scores (int bs) (int bb) (int i) sel =
           batch_loop scores (int bs) (int bb) (int (min (i + bs) (length scores) + bb))
             (sel @ [int p])"
proof -
  let ?e = "min (i + bs) (length scores)"
  let ?w = "take (?e - i) (drop i scores)"
  have ie: "i < ?e" "?e \<le> length scores"
    using assms by simp_all
  have batchEnd: "min (int i + int bs) (int (length scores)) = int ?e"
    by simp
  have w: "slice scores (int i) (int ?e) = ?w"
    using ie by (intro slice_window) simp_all
  have len_w: "length ?w = ?e - i"
    using ie by simp
  then have "?w \<noteq> []"
    using ie by (metis length_0_conv zero_less_diff less_numeral_extra(3))
  from window_pick [OF this] obtain q where q: "q < length ?w"
    "(case Math_max ?w of None \<Rightarrow> -1 | Some m \<Rightarrow> indexOf ?w m) = int q"
    "\<forall>j<length ?w. ?w ! j \<le> ?w ! q" "\<forall>j<q. ?w ! j < ?w ! q"
    by blast
  have nth_w: "?w ! j = scores ! (i + j)" if "j < ?e - i" for j
    using that ie by simp
  have "first_max scores i ?e (i + q)"
    unfolding first_max_def
  proof (intro conjI ballI)
    show "i \<le> i + q" by simp
    show "i + q < ?e" using q(1) len_w by linarith
  next
    fix j assume "j \<in> set [i..<?e]"
    then have j: "i \<le> j" "j - i < ?e - i" by auto
    then have "j - i < length ?w"
      by (simp only: len_w)
    then have "?w ! (j - i) \<le> ?w ! q"
      using q(3) by blast
    moreover have "?w ! (j - i) = scores ! j"
      using nth_w [of "j - i"] j by simp
    moreover have "?w ! q = scores ! (i + q)"
      using nth_w [of q] q(1) len_w by simp
    ultimately show "scores ! j \<le> scores ! (i + q)"
      by (simp only:)
  next
    fix j assume "j \<in> set [i..<i + q]"
    then have j: "i \<le> j" "j - i < q" by auto
    then have "?w ! (j - i) < ?w ! q"
      using q(4) by blast
    moreover have "?w ! (j - i) = scores ! j"
      using nth_w [of "j - i"] j q(1) len_w by simp
    moreover have "?w ! q = scores ! (i + q)"
      using nth_w [of q] q(1) len_w by simp
    ultimately show "scores ! j < scores ! (i + q)"
      by (simp only:)
  qed
  moreover have "batch_loop scores (int bs) (int bb) (int i) sel =
      batch_loop scores (int bs) (int bb) (int (?e + bb)) (sel @ [int (i + q)])"
    using assms(1) q(2)
    by (subst batch_loop.simps) (simp only: batchEnd w Let_def of_nat_less_iff if_True of_nat_add)
  ultimately show ?thesis by blast
qed


text \<open>
  With a positive batch size the loop returns, and appends one pick for every window that
  starts at \<open>i\<close>, \<open>i + (bs + bb)\<close>, \<open>i + 2 * (bs + bb)\<close>, \<dots> below the length.
\<close>

lemma batch_loop_windows:
  assumes bs: "0 < bs"
  shows "\<exists>r. batch_loop scores (int bs) (int bb) (int i) sel = Some (sel @ map int r) \<and>
           length r = (length scores - i + bs + bb - 1) div (bs + bb) \<and>
           (\<forall>k<length r. first_max scores (i + k * (bs + bb))
                             (min (i + k * (bs + bb) + bs) (length scores)) (r ! k))"
proof (induction "length scores - i" arbitrary: i sel rule: less_induct)
  case less
  let ?len = "length scores" and ?c = "bs + bb"
  show ?case
  proof (cases "i < ?len")
    case False
    then have "batch_loop scores (int bs) (int bb) (int i) sel = Some sel"
      by (subst batch_loop.simps) simp
    moreover have "(?len - i + bs + bb - 1) div ?c = 0"
      using False bs by simp
    ultimately show ?thesis
      by (intro exI [of _ "[]"]) simp
  next
    case True
    let ?e = "min (i + bs) ?len"
    from batch_loop_step [OF True bs] obtain p where
      p: "first_max scores i ?e p" and
      step: "batch_loop scores (int bs) (int bb) (int i) sel =
             batch_loop scores (int bs) (int bb) (int (?e + bb)) (sel @ [int p])"
      by blast
    have "i < ?e + bb"
      using True bs by (simp add: min_def)
    then have "?len - (?e + bb) < ?len - i"
      using True by (intro diff_less_mono2) simp_all
    from less [OF this, of "sel @ [int p]"] obtain r' where
      r': "batch_loop scores (int bs) (int bb) (int (?e + bb)) (sel @ [int p])
             = Some ((sel @ [int p]) @ map int r')"
        "length r' = (?len - (?e + bb) + bs + bb - 1) div ?c"
        "\<forall>k<length r'. first_max scores (?e + bb + k * ?c)
                             (min (?e + bb + k * ?c + bs) ?len) (r' ! k)"
      by blast
    have rest: "?len - (?e + bb) = (?len - i) - ?c"
    proof (cases "i + bs \<le> ?len")
      case True
      then have "?e = i + bs" by simp
      then show ?thesis by (simp add: add.assoc)
    next
      case False
      then have "?e = ?len" by simp
      with False show ?thesis by simp
    qed
    have len: "length (p # r') = (?len - i + bs + bb - 1) div ?c"
    proof -
      have "Suc (((?len - i) - ?c + ?c - 1) div ?c) = ((?len - i) + ?c - 1) div ?c"
        using True bs by (intro window_count_step) simp_all
      then show ?thesis
        by (simp add: r'(2) rest add.assoc)
    qed
    have win: "first_max scores (i + k * ?c) (min (i + k * ?c + bs) ?len) ((p # r') ! k)"
      if "k < length (p # r')" for k
    proof (cases k)
      case 0
      with p show ?thesis by simp
    next
      case (Suc k')
      with that have k': "k' < length r'" by simp
      then have "0 < (?len - (?e + bb) + bs + bb - 1) div ?c"
        using r'(2) by simp
      have "?e + bb < ?len"
      proof (rule ccontr)
        assume "\<not> ?e + bb < ?len"
        then have "?len - (?e + bb) = 0" by simp
        then have "length r' = (?c - 1) div ?c"
          using r'(2) by (simp add: add.assoc)
        then have "length r' = 0" using bs by simp
        with k' show False by simp
      qed
      then have e: "?e = i + bs"
        by (simp add: min_def split: if_splits)
      have "first_max scores (?e + bb + k' * ?c) (min (?e + bb + k' * ?c + bs) ?len) (r' ! k')"
        using r'(3) k' by blast
      moreover have "i + bs + bb + k' * ?c = i + Suc k' * ?c"
        by simp
      then have "?e + bb + k' * ?c = i + k * ?c"
        unfolding e Suc .
      moreover have "(p # r') ! k = r' ! k'"
        using Suc by simp
      ultimately show ?thesis
        by (simp only:)
    qed
    have "batch_loop scores (int bs) (int bb) (int i) sel = Some (sel @ map int (p # r'))"
      using step r'(1) by simp
    with len win show ?thesis
      by blast
  qed
qed

lemma window_count_iff:
  assumes "0 < bs"
  shows "k < window_count len bs bb \<longleftrightarrow> window_start bs bb k < len"
proof -
  let ?c = "bs + bb"
  have c: "0 < ?c" using assms by simp
  have "k < window_count len bs bb \<longleftrightarrow> Suc k \<le> (len + ?c - 1) div ?c"
    by (simp add: window_count_def Suc_le_eq add.assoc)
  also have "\<dots> \<longleftrightarrow> Suc k * ?c \<le> len + ?c - 1"
    using c by (simp only: less_eq_div_iff_mult_less_eq)
  also have "\<dots> \<longleftrightarrow> k * ?c < len"
    using c by auto
  finally show ?thesis
    by (simp add: window_start_def)
qed

lemma window_order:
  assumes "k < l"
  shows "window_end len bs bb k + bb \<le> window_start bs bb l"
proof -
  have "Suc k * (bs + bb) \<le> l * (bs + bb)"
    using assms by (intro mult_le_mono1) simp
  then show ?thesis
    by (simp add: window_end_def window_start_def)
qed

lemma first_max_bounds: "first_max scores s e p \<Longrightarrow> s \<le> p \<and> p < e"
  by (simp add: first_max_def)

lemma gaps_at_least_nth:
  "gaps_at_least d xs \<longleftrightarrow> (\<forall>k. Suc k < length xs \<longrightarrow> xs ! Suc k - xs ! k \<ge> d)"
proof (induction d xs rule: gaps_at_least.induct)
  case (1 d x y ys)
  have "(\<forall>k. Suc k < length (x # y # ys) \<longrightarrow> (x # y # ys) ! Suc k - (x # y # ys) ! k \<ge> d) \<longleftrightarrow>
      y - x \<ge> d \<and> (\<forall>k. Suc k < length (y # ys) \<longrightarrow> (y # ys) ! Suc k - (y # ys) ! k \<ge> d)"
    (is "?L \<longleftrightarrow> ?R")
  proof
    assume l: ?L
    have "y - x \<ge> d" using l [rule_format, of 0] by simp
    moreover have "(y # ys) ! Suc k - (y # ys) ! k \<ge> d" if "Suc k < length (y # ys)" for k
      using l [rule_format, of "Suc k"] that by simp
    ultimately show ?R by blast
  next
    assume r: ?R
    show ?L
    proof (intro allI impI)
      fix k assume "Suc k < length (x # y # ys)"
      then show "(x # y # ys) ! Suc k - (x # y # ys) ! k \<ge> d"
        using r by (cases k) auto
    qed
  qed
  with 1 show ?case by simp
qed simp_all

text \<open>The whole batch case, for a batch size of at least 1 and a buffer of at least 0.\<close>

lemma select_batch_windows:
  assumes "1 \<le> bSize" and "0 \<le> bBuffer"
  shows "\<exists>r. select_batch scores bSize bBuffer = Some (map int r) \<and>
           length r = window_count (length scores) (nat bSize) (nat bBuffer) \<and>
           sorted_wrt (<) r \<and>
           (\<forall>k<length r. first_max scores (window_start (nat bSize) (nat bBuffer) k)
              (window_end (length scores) (nat bSize) (nat bBuffer) k) (r ! k))"
proof -
  let ?bs = "nat bSize" and ?bb = "nat bBuffer"
  have bs: "0 < ?bs" using assms by simp
  from batch_loop_windows [OF bs, of scores ?bb 0 "[]"] obtain r where
    r: "batch_loop scores (int ?bs) (int ?bb) (int 0) [] = Some ([] @ map int r)"
      "length r = (length scores - 0 + ?bs + ?bb - 1) div (?bs + ?bb)"
      "\<forall>k<length r. first_max scores (0 + k * (?bs + ?bb))
                        (min (0 + k * (?bs + ?bb) + ?bs) (length scores)) (r ! k)"
    by blast
  have loop: "batch_loop scores bSize bBuffer 0 [] = Some (map int r)"
    using r(1) assms by simp
  have len: "length r = window_count (length scores) ?bs ?bb"
    using r(2) by (simp add: window_count_def)
  have win: "first_max scores (window_start ?bs ?bb k) (window_end (length scores) ?bs ?bb k) (r ! k)"
    if "k < length r" for k
    using r(3) that by (simp add: window_start_def window_end_def)
  have "r ! k < r ! l" if "k < l" "l < length r" for k l
  proof -
    have "r ! k < window_end (length scores) ?bs ?bb k"
      using win [of k] that first_max_bounds by (meson less_trans)
    also have "\<dots> \<le> window_start ?bs ?bb l"
      using window_order [OF that(1), of "length scores" ?bs ?bb] by simp
    also have "\<dots> \<le> r ! l"
      using win [OF that(2)] first_max_bounds by blast
    finally show ?thesis .
  qed
  then have sorted: "sorted_wrt (<) r"
    by (simp add: sorted_wrt_iff_nth_less)
  then have "sorted_wrt (<) (map int r)"
    by (simp add: sorted_wrt_map)
  then have "sort_cmp (\<lambda>a b. a - b) (map int r) = map int r"
    by (simp add: sort_cmp_int strict_sorted_iff sorted_sort_id)
  then have "select_batch scores bSize bBuffer = Some (map int r)"
    by (simp add: select_batch_def loop)
  with len sorted win show ?thesis by blast
qed

lemma gsfi_batch:
  "analysisResult st = Some res \<Longrightarrow> selectionMode st = Batch \<Longrightarrow>
   getSelectedFrameIndices st =
     select_batch (map sharpness (frames res)) (batchSize (selectionSettings st))
       (batchBuffer (selectionSettings st))"
  by (simp add: getSelectedFrameIndices_def)

section \<open>Claims about Batch mode\<close>

text \<open>
  C4. For a batch size of at least 2 and a buffer of at least 0, Batch mode returns: the
  frame sequence is cut into the windows \<open>k = 0, 1, \<dots>\<close> that start at
  \<open>k * (batch_size + batch_buffer)\<close> below the length of the sequence and hold \<open>batch_size\<close>
  frames (the last one may be shorter); the \<open>k\<close>-th entry of the result is the index of the
  maximum score of window \<open>k\<close>, the earliest one among equal scores; the result is in
  ascending order.
\<close>

theorem batch_selection_windows:
  assumes "analysisResult st = Some res" and "selectionMode st = Batch"
    and "2 \<le> batchSize (selectionSettings st)" and "0 \<le> batchBuffer (selectionSettings st)"
  shows "\<exists>r. getSelectedFrameIndices st = Some (map int r) \<and>
           sorted_wrt (<) r \<and>
           (\<forall>k. k < length r \<longleftrightarrow>
                window_start (nat (batchSize (selectionSettings st)))
                  (nat (batchBuffer (selectionSettings st))) k < length (frames res)) \<and>
           (\<forall>k<length r.
              first_max (map sharpness (frames res))
                (window_start (nat (batchSize (selectionSettings st)))
                   (nat (batchBuffer (selectionSettings st))) k)
                (window_end (length (frames res)) (nat (batchSize (selectionSettings st)))
                   (nat (batchBuffer (selectionSettings st))) k)
                (r ! k))"
proof -
  let ?bs = "nat (batchSize (selectionSettings st))"
  let ?bb = "nat (batchBuffer (selectionSettings st))"
  let ?scores = "map sharpness (frames res)"
  have "1 \<le> batchSize (selectionSettings st)"
    using assms(3) by simp
  from select_batch_windows [OF this assms(4), of ?scores] obtain r where
    r: "select_batch ?scores (batchSize (selectionSettings st)) (batchBuffer (selectionSettings st))
          = Some (map int r)"
       "length r = window_count (length ?scores) ?bs ?bb"
       "sorted_wrt (<) r"
       "\<forall>k<length r. first_max ?scores (window_start ?bs ?bb k)
           (window_end (length ?scores) ?bs ?bb k) (r ! k)"
    by (elim exE conjE)
  have "0 < ?bs" using assms(3) by simp
  then have "k < length r \<longleftrightarrow> window_start ?bs ?bb k < length (frames res)" for k
    using window_count_iff [of ?bs k "length (frames res)" ?bb] r(2) by simp
  moreover have "getSelectedFrameIndices st = Some (map int r)"
    using gsfi_batch [OF assms(1,2)] r(1) by simp
  moreover have "\<forall>k<length r. first_max ?scores (window_start ?bs ?bb k)
           (window_end (length (frames res)) ?bs ?bb k) (r ! k)"
    using r(4) by simp
  ultimately show ?thesis
    using r(3) by blast
qed

theorem batch_selection_windows_witness:
  "getSelectedFrameIndices
     (initial_state\<lparr>analysisResult := Some (analysis_of [3, 1, 4, 1, 5, 9, 2, 6, 5, 3]),
        selectionMode := Batch\<rparr>) = Some [2, 5, 8] \<and>
   first_max [3, 1, 4, 1, 5, 9, 2, 6, 5, 3] 8 10 8"
proof -
  let ?scores = "[3, 1, 4, 1, 5, 9, 2, 6, 5, 3] :: real list"
  let ?res = "analysis_of ?scores"
  let ?st = "initial_state\<lparr>analysisResult := Some ?res, selectionMode := Batch\<rparr>"
  have h: "analysisResult ?st = Some ?res" "selectionMode ?st = Batch"
    "2 \<le> batchSize (selectionSettings ?st)" "0 \<le> batchBuffer (selectionSettings ?st)"
    by (simp_all add: initial_state_def)
  have params: "nat (batchSize (selectionSettings ?st)) = 3"
    "nat (batchBuffer (selectionSettings ?st)) = 1"
    by (simp_all add: initial_state_def)
  have scores: "map sharpness (frames ?res) = ?scores"
    by code_simp
  from batch_selection_windows [OF h] obtain r where
    r: "getSelectedFrameIndices ?st = Some (map int r)"
       "\<forall>k<length r. first_max (map sharpness (frames ?res))
           (window_start 3 1 k) (window_end (length (frames ?res)) 3 1 k) (r ! k)"
    unfolding params by (elim exE conjE)
  have run: "getSelectedFrameIndices ?st = Some [2, 5, 8]"
    by code_simp
  with r(1) have "map int r = map int [2, 5, 8]"
    by simp
  then have r_eq: "r = [2, 5, 8]"
    using inj_map_eq_map [OF inj_of_nat] by blast
  have "2 < length r"
    by (simp add: r_eq)
  with r(2) have "first_max (map sharpness (frames ?res)) (window_start 3 1 2)
      (window_end (length (frames ?res)) 3 1 2) (r ! 2)"
    by blast
  then have "first_max ?scores (window_start 3 1 2) (window_end (length (frames ?res)) 3 1 2) (r ! 2)"
    by (simp only: scores)
  moreover have "window_start 3 1 2 = 8" "window_end (length (frames ?res)) 3 1 2 = 10"
    by (simp_all add: window_start_def window_end_def analysis_of_def with_idx_def)
  ultimately have "first_max ?scores 8 10 8"
    using r_eq by simp
  with run show ?thesis by simp
qed

lemma picks_one_per_window:
  assumes win: "\<forall>k<length r. window_start bs bb k \<le> r ! k \<and> r ! k < window_end len bs bb k"
    and k: "k < length r"
  shows "{i \<in> set r. window_start bs bb k \<le> i \<and> i < window_end len bs bb k} = {r ! k}"
proof (intro equalityI subsetI)
  fix i assume "i \<in> {r ! k}"
  then show "i \<in> {i \<in> set r. window_start bs bb k \<le> i \<and> i < window_end len bs bb k}"
    using win k by simp
next
  fix i assume "i \<in> {i \<in> set r. window_start bs bb k \<le> i \<and> i < window_end len bs bb k}"
  then have i: "i \<in> set r" "window_start bs bb k \<le> i" "i < window_end len bs bb k"
    by simp_all
  from i(1) obtain l where l: "l < length r" "r ! l = i"
    by (auto simp: in_set_conv_nth)
  have "\<not> l < k"
  proof
    assume "l < k"
    then have "window_end len bs bb l \<le> window_start bs bb k"
      using window_order [of l k len bs bb] by simp
    moreover have "i < window_end len bs bb l"
      using win l by blast
    ultimately show False using i(2) by simp
  qed
  moreover have "\<not> k < l"
  proof
    assume "k < l"
    then have "window_end len bs bb k \<le> window_start bs bb l"
      using window_order [of k l len bs bb] by simp
    moreover have "window_start bs bb l \<le> i"
      using win l by blast
    ultimately show False using i(3) by simp
  qed
  ultimately have "l = k" by simp
  with l(2) show "i \<in> {r ! k}" by simp
qed

lemma picks_gaps:
  assumes win: "\<forall>k<length r. window_start bs bb k \<le> r ! k \<and> r ! k < window_end len bs bb k"
  shows "gaps_at_least (int bb + 1) (map int r)"
  unfolding gaps_at_least_nth
proof (intro allI impI)
  fix k assume "Suc k < length (map int r)"
  then have k: "Suc k < length r" by simp
  have "r ! k < window_end len bs bb k"
    using win k by simp
  moreover have "window_end len bs bb k + bb \<le> window_start bs bb (Suc k)"
    by (rule window_order) simp
  moreover have "window_start bs bb (Suc k) \<le> r ! Suc k"
    using win k by blast
  ultimately have "r ! k + bb + 1 \<le> r ! Suc k"
    by simp
  then show "int bb + 1 \<le> map int r ! Suc k - map int r ! k"
    using k by simp
qed

text \<open>
  C5, as stated: with \<open>batch_buffer = 0\<close> consecutive selected indices are at least
  \<open>batch_size\<close> apart, and for \<open>batch_size = 3\<close>, \<open>batch_buffer = 1\<close> over ten frames the
  third window is \<open>[7-9]\<close>. Neither holds: with size 3 and buffer 0 the scores
  \<open>[0,0,1,1,0,0]\<close> give the adjacent picks 2 and 3, and with buffer 1 the third window starts
  at frame 8, so the pick 8 is returned although frame 7 has the highest score of \<open>[7-9]\<close>.
\<close>

theorem batch_spacing_counterexample:
  "getSelectedFrameIndices
     (initial_state\<lparr>analysisResult := Some (analysis_of [0, 0, 1, 1, 0, 0]),
        selectionMode := Batch,
        selectionSettings := (selectionSettings initial_state)\<lparr>batchSize := 3, batchBuffer := 0\<rparr>\<rparr>)
     = Some [2, 3] \<and>
   \<not> gaps_at_least 3 [2, 3] \<and>
   getSelectedFrameIndices
     (initial_state\<lparr>analysisResult := Some (analysis_of [0, 0, 0, 0, 0, 0, 0, 9, 0, 0]),
        selectionMode := Batch,
        selectionSettings := (selectionSettings initial_state)\<lparr>batchSize := 3, batchBuffer := 1\<rparr>\<rparr>)
     = Some [0, 4, 8] \<and>
   \<not> first_max [0, 0, 0, 0, 0, 0, 0, 9, 0, 0] 7 10 8"
  by code_simp


text \<open>
  C5, amended. In Batch mode (batch size at least 2, buffer at least 0) every window
  contributes exactly one selected index, so the number of picks is the number of windows;
  two consecutive selected indices are at least \<open>batch_buffer + 1\<close> apart (for
  \<open>batch_buffer = 0\<close> they may be adjacent); and for \<open>batch_size = 3\<close>, \<open>batch_buffer = 1\<close>
  over ten frames the windows are \<open>[0-2]\<close>, \<open>[4-6]\<close>, \<open>[8-9]\<close> and the result is exactly three
  picks, one per window, each the maximum of its window.
\<close>

theorem batch_selection_spacing:
  "(\<forall>(st::AppState) res.
      analysisResult st = Some res \<and> selectionMode st = Batch \<and>
      2 \<le> batchSize (selectionSettings st) \<and> 0 \<le> batchBuffer (selectionSettings st) \<longrightarrow>
      (\<exists>r. getSelectedFrameIndices st = Some (map int r) \<and>
           length r = window_count (length (frames res)) (nat (batchSize (selectionSettings st)))
                        (nat (batchBuffer (selectionSettings st))) \<and>
           (\<forall>k<length r.
              {i \<in> set r.
                 window_start (nat (batchSize (selectionSettings st)))
                   (nat (batchBuffer (selectionSettings st))) k \<le> i \<and>
                 i < window_end (length (frames res)) (nat (batchSize (selectionSettings st)))
                       (nat (batchBuffer (selectionSettings st))) k} = {r ! k}) \<and>
           gaps_at_least (batchBuffer (selectionSettings st) + 1) (map int r))) \<and>
   (\<forall>(st::AppState) res.
      analysisResult st = Some res \<and> selectionMode st = Batch \<and>
      batchSize (selectionSettings st) = 3 \<and> batchBuffer (selectionSettings st) = 1 \<and>
      length (frames res) = 10 \<longrightarrow>
      (\<exists>p0 p1 p2. getSelectedFrameIndices st = Some [int p0, int p1, int p2] \<and>
           first_max (map sharpness (frames res)) 0 3 p0 \<and>
           first_max (map sharpness (frames res)) 4 7 p1 \<and>
           first_max (map sharpness (frames res)) 8 10 p2))"
proof (intro conjI allI impI)
  fix st :: AppState and res :: AnalysisResult
  assume a: "analysisResult st = Some res \<and> selectionMode st = Batch \<and>
      2 \<le> batchSize (selectionSettings st) \<and> 0 \<le> batchBuffer (selectionSettings st)"
  let ?bs = "nat (batchSize (selectionSettings st))"
  let ?bb = "nat (batchBuffer (selectionSettings st))"
  let ?scores = "map sharpness (frames res)"
  have "1 \<le> batchSize (selectionSettings st)" "0 \<le> batchBuffer (selectionSettings st)"
    using a by simp_all
  from select_batch_windows [OF this, of ?scores] obtain r where
    r: "select_batch ?scores (batchSize (selectionSettings st)) (batchBuffer (selectionSettings st))
          = Some (map int r)"
       "length r = window_count (length ?scores) ?bs ?bb"
       "\<forall>k<length r. first_max ?scores (window_start ?bs ?bb k)
           (window_end (length ?scores) ?bs ?bb k) (r ! k)"
    by (elim exE conjE)
  have win: "\<forall>k<length r. window_start ?bs ?bb k \<le> r ! k \<and>
      r ! k < window_end (length (frames res)) ?bs ?bb k"
    using r(3) first_max_bounds by fastforce
  have "getSelectedFrameIndices st = Some (map int r)"
    using gsfi_batch [of st res] a r(1) by simp
  moreover have "length r = window_count (length (frames res)) ?bs ?bb"
    using r(2) by simp
  moreover have "\<forall>k<length r.
      {i \<in> set r. window_start ?bs ?bb k \<le> i \<and> i < window_end (length (frames res)) ?bs ?bb k}
        = {r ! k}"
    using picks_one_per_window [OF win] by blast
  moreover have "gaps_at_least (batchBuffer (selectionSettings st) + 1) (map int r)"
    using picks_gaps [OF win] a by simp
  ultimately show "\<exists>r. getSelectedFrameIndices st = Some (map int r) \<and>
      length r = window_count (length (frames res)) ?bs ?bb \<and>
      (\<forall>k<length r.
          {i \<in> set r. window_start ?bs ?bb k \<le> i \<and> i < window_end (length (frames res)) ?bs ?bb k}
            = {r ! k}) \<and>
      gaps_at_least (batchBuffer (selectionSettings st) + 1) (map int r)"
    by blast
next
  fix st :: AppState and res :: AnalysisResult
  assume a: "analysisResult st = Some res \<and> selectionMode st = Batch \<and>
      batchSize (selectionSettings st) = 3 \<and> batchBuffer (selectionSettings st) = 1 \<and>
      length (frames res) = 10"
  let ?scores = "map sharpness (frames res)"
  have len10: "length (frames res) = 10" using a by simp
  then have len: "length ?scores = 10" by simp
  from select_batch_windows [of 3 1 ?scores] obtain r where
    r: "select_batch ?scores 3 1 = Some (map int r)"
       "length r = window_count (length ?scores) (nat 3) (nat 1)"
       "\<forall>k<length r. first_max ?scores (window_start (nat 3) (nat 1) k)
           (window_end (length ?scores) (nat 3) (nat 1) k) (r ! k)"
    by auto
  have three: "length r = 3"
    using r(2) by (simp add: len10 window_count_def)
  then obtain p0 p1 p2 where r_eq: "r = [p0, p1, p2]"
    by (auto simp: length_Suc_conv numeral_3_eq_3)
  have "first_max ?scores (window_start (nat 3) (nat 1) 0)
      (window_end (length ?scores) (nat 3) (nat 1) 0) (r ! 0)"
    using r(3) three by simp
  then have w0: "first_max ?scores 0 3 p0"
    by (simp add: r_eq len10 window_start_def window_end_def)
  have "first_max ?scores (window_start (nat 3) (nat 1) 1)
      (window_end (length ?scores) (nat 3) (nat 1) 1) (r ! 1)"
    using r(3) three by simp
  then have w1: "first_max ?scores 4 7 p1"
    by (simp add: r_eq len10 window_start_def window_end_def)
  have "first_max ?scores (window_start (nat 3) (nat 1) 2)
      (window_end (length ?scores) (nat 3) (nat 1) 2) (r ! 2)"
    using r(3) three by simp
  then have w2: "first_max ?scores 8 10 p2"
    by (simp add: r_eq len10 window_start_def window_end_def)
  have "getSelectedFrameIndices st = Some [int p0, int p1, int p2]"
    using gsfi_batch [of st res] a r(1) by (simp add: r_eq)
  with w0 w1 w2 show "\<exists>p0 p1 p2. getSelectedFrameIndices st = Some [int p0, int p1, int p2] \<and>
      first_max ?scores 0 3 p0 \<and> first_max ?scores 4 7 p1 \<and> first_max ?scores 8 10 p2"
    by blast
qed

theorem batch_selection_spacing_witness:
  "getSelectedFrameIndices
     (initial_state\<lparr>analysisResult := Some (analysis_of [3, 1, 4, 1, 5, 9, 2, 6, 5, 3]),
        selectionMode := Batch\<rparr>) = Some [2, 5, 8] \<and>
   first_max [3, 1, 4, 1, 5, 9, 2, 6, 5, 3] 0 3 2 \<and>
   first_max [3, 1, 4, 1, 5, 9, 2, 6, 5, 3] 4 7 5 \<and>
   first_max [3, 1, 4, 1, 5, 9, 2, 6, 5, 3] 8 10 8 \<and>
   gaps_at_least 2 [2, 5, 8]"
proof -
  let ?scores = "[3, 1, 4, 1, 5, 9, 2, 6, 5, 3] :: real list"
  let ?res = "analysis_of ?scores"
  let ?st = "initial_state\<lparr>analysisResult := Some ?res, selectionMode := Batch\<rparr>"
  have h1: "analysisResult ?st = Some ?res \<and> selectionMode ?st = Batch \<and>
      2 \<le> batchSize (selectionSettings ?st) \<and> 0 \<le> batchBuffer (selectionSettings ?st)"
    by (simp add: initial_state_def)
  have h2: "analysisResult ?st = Some ?res \<and> selectionMode ?st = Batch \<and>
      batchSize (selectionSettings ?st) = 3 \<and> batchBuffer (selectionSettings ?st) = 1 \<and>
      length (frames ?res) = 10"
    by (simp add: initial_state_def analysis_of_def with_idx_def)
  have scores: "map sharpness (frames ?res) = ?scores"
    by code_simp
  have buffer: "batchBuffer (selectionSettings ?st) + 1 = 2"
    by (simp add: initial_state_def)
  have run: "getSelectedFrameIndices ?st = Some [2, 5, 8]"
    by code_simp
  note spacing = batch_selection_spacing
  from spacing h1 obtain r where
    r: "getSelectedFrameIndices ?st = Some (map int r)"
       "gaps_at_least (batchBuffer (selectionSettings ?st) + 1) (map int r)"
    by blast
  from r(1) run have "map int r = [2, 5, 8]" by simp
  with r(2) have gaps: "gaps_at_least 2 [2, 5, 8]"
    by (simp only: buffer)
  from spacing h2 obtain p0 p1 p2 where
    p: "getSelectedFrameIndices ?st = Some [int p0, int p1, int p2]"
       "first_max (map sharpness (frames ?res)) 0 3 p0"
       "first_max (map sharpness (frames ?res)) 4 7 p1"
       "first_max (map sharpness (frames ?res)) 8 10 p2"
    by blast
  from p(1) run have "p0 = 2" "p1 = 5" "p2 = 8" by simp_all
  with p(2,3,4) have "first_max ?scores 0 3 2" "first_max ?scores 4 7 5" "first_max ?scores 8 10 8"
    by (simp_all only: scores)
  with run gaps show ?thesis by simp
qed

section \<open>BestN and TopPercentage modes\<close>

lemma gsfi_bestN:
  "analysisResult st = Some res \<Longrightarrow> selectionMode st = BestN \<Longrightarrow>
   getSelectedFrameIndices st =
     Some (select_bestN (map sharpness (frames res)) (bestN (selectionSettings st)))"
  by (simp add: getSelectedFrameIndices_def)

lemma gsfi_topPercentage:
  "analysisResult st = Some res \<Longrightarrow> selectionMode st = TopPercentage \<Longrightarrow>
   getSelectedFrameIndices st =
     Some (select_topPercentage (length (frames res)) (map sharpness (frames res))
             (topPercentage (selectionSettings st)))"
  by (simp add: getSelectedFrameIndices_def)

lemma set_idx_with_idx: "snd ` set (with_idx xs) = {0..<int (length xs)}"
proof -
  have "snd ` set (with_idx xs) = set (map snd (with_idx xs))" by simp
  also have "\<dots> = int ` {0..<length xs}" by (simp only: map_snd_with_idx set_map set_upt)
  also have "\<dots> = {0..<int (length xs)}" by (simp add: image_int_atLeastLessThan)
  finally show ?thesis .
qed

lemma select_bestN_sorted: "sorted_wrt (<) (select_bestN scores n)"
  unfolding select_bestN_def Let_def
  using top_slice_sorted [OF strict_idx_with_idx, of "\<lambda>s. s" scores n] by simp

lemma select_bestN_subset: "set (select_bestN scores n) \<subseteq> {0..<int (length scores)}"
  unfolding select_bestN_def Let_def
  using top_slice_subset [OF strict_idx_with_idx, of "\<lambda>s. s" scores n]
  by (simp add: set_idx_with_idx)

lemma select_bestN_length:
  "0 \<le> n \<Longrightarrow> length (select_bestN scores n) = min (nat n) (length scores)"
  unfolding select_bestN_def Let_def
  using top_slice_length [OF strict_idx_with_idx, of n "\<lambda>s. s" scores]
  by (simp add: length_with_idx)

lemma select_bestN_all:
  "int (length scores) \<le> n \<Longrightarrow> select_bestN scores n = map int [0..<length scores]"
  unfolding select_bestN_def Let_def
  using top_slice_all [OF strict_idx_with_idx, of scores n "\<lambda>s. s"]
  by (simp add: length_with_idx map_snd_with_idx)

lemma select_bestN_outranks:
  assumes "i \<in> set (select_bestN scores n)" and "j \<in> {0..<int (length scores)}"
    and "j \<notin> set (select_bestN scores n)"
  shows "outranks scores i j"
proof -
  have i: "0 \<le> i" "i < int (length scores)"
    using assms(1) select_bestN_subset [of scores n] by auto
  have j: "0 \<le> j" "j < int (length scores)"
    using assms(2) by auto
  let ?a = "(scores ! nat i, i)" and ?b = "(scores ! nat j, j)"
  have a: "?a \<in> set (with_idx scores)" and b: "?b \<in> set (with_idx scores)"
    using i j by (simp_all add: in_with_idx)
  have "before (\<lambda>s. s) ?a ?b"
    using top_slice_beats [OF strict_idx_with_idx a b, of "\<lambda>s. s" n] assms(1,3)
    by (simp add: select_bestN_def Let_def)
  then show ?thesis
    by (auto simp: before_def outranks_def)
qed

lemma select_topPercentage_bestN:
  "select_topPercentage len scores pct = select_bestN scores (percentage_count len pct)"
  by (simp add: select_topPercentage_def select_bestN_def Let_def)

lemma percentage_count_bounds:
  assumes "0 \<le> pct" and "pct \<le> 100"
  shows "0 \<le> percentage_count len pct" and "percentage_count len pct \<le> int len"
proof -
  have "0 \<le> real_of_int (int len * pct) / 100"
    using assms(1) by simp
  then show "0 \<le> percentage_count len pct"
    unfolding percentage_count_def by linarith
  have "int len * pct \<le> int len * 100"
    using assms(2) by (intro mult_left_mono) simp_all
  then have "real_of_int (int len * pct) \<le> real_of_int (int len * 100)"
    by (simp only: of_int_le_iff)
  then have "real_of_int (int len * pct) / 100 \<le> real_of_int (int len)"
    by simp
  then show "percentage_count len pct \<le> int len"
    unfolding percentage_count_def by (simp only: ceiling_le_iff)
qed

section \<open>Claims about BestN and TopPercentage modes\<close>

text \<open>
  C8. For \<open>n \<ge> 1\<close>, BestN mode returns, in ascending order, the indices of the \<open>n\<close> frames
  of highest score, where of two frames with the same score the one with the lower index
  ranks higher: every selected frame outranks every frame left out. If \<open>n\<close> is at least
  the number of frames, every frame index is returned.
\<close>

theorem bestN_selection:
  assumes "analysisResult st = Some res" and "selectionMode st = BestN"
    and "1 \<le> bestN (selectionSettings st)"
  shows "\<exists>r. getSelectedFrameIndices st = Some r \<and>
           sorted_wrt (<) r \<and>
           length r = min (nat (bestN (selectionSettings st))) (length (frames res)) \<and>
           set r \<subseteq> {0..<int (length (frames res))} \<and>
           (\<forall>i\<in>set r. \<forall>j\<in>{0..<int (length (frames res))} - set r.
               outranks (map sharpness (frames res)) i j) \<and>
           (int (length (frames res)) \<le> bestN (selectionSettings st) \<longrightarrow>
               r = map int [0..<length (frames res)])"
proof -
  let ?scores = "map sharpness (frames res)"
  let ?n = "bestN (selectionSettings st)"
  let ?r = "select_bestN ?scores ?n"
  have "getSelectedFrameIndices st = Some ?r"
    using assms(1,2) by (rule gsfi_bestN)
  moreover have "sorted_wrt (<) ?r"
    by (rule select_bestN_sorted)
  moreover have "length ?r = min (nat ?n) (length (frames res))"
    using assms(3) select_bestN_length [of ?n ?scores] by simp
  moreover have "set ?r \<subseteq> {0..<int (length (frames res))}"
    using select_bestN_subset [of ?scores ?n] by simp
  moreover have "\<forall>i\<in>set ?r. \<forall>j\<in>{0..<int (length (frames res))} - set ?r. outranks ?scores i j"
    using select_bestN_outranks [of _ ?scores ?n] by simp
  moreover have "int (length (frames res)) \<le> ?n \<longrightarrow> ?r = map int [0..<length (frames res)]"
    using select_bestN_all [of ?scores ?n] by simp
  ultimately show ?thesis by blast
qed

theorem bestN_selection_witness:
  "getSelectedFrameIndices
     (initial_state\<lparr>analysisResult := Some (analysis_of [1, 8, 2, 8, 3, 8]),
        selectionMode := BestN,
        selectionSettings := (selectionSettings initial_state)\<lparr>bestN := 2\<rparr>\<rparr>) = Some [1, 3] \<and>
   outranks [1, 8, 2, 8, 3, 8] 3 5 \<and>
   getSelectedFrameIndices
     (initial_state\<lparr>analysisResult := Some (analysis_of [1, 8, 2, 8, 3, 8]),
        selectionMode := BestN\<rparr>) = Some [0, 1, 2, 3, 4, 5]"
proof -
  let ?scores = "[1, 8, 2, 8, 3, 8] :: real list"
  let ?res = "analysis_of ?scores"
  let ?st = "initial_state\<lparr>analysisResult := Some ?res, selectionMode := BestN,
      selectionSettings := (selectionSettings initial_state)\<lparr>bestN := 2\<rparr>\<rparr>"
  let ?st50 = "initial_state\<lparr>analysisResult := Some ?res, selectionMode := BestN\<rparr>"
  have scores: "map sharpness (frames ?res) = ?scores"
    by code_simp
  have len: "length (frames ?res) = 6"
    by (simp add: analysis_of_def with_idx_def)
  have h: "analysisResult ?st = Some ?res" "selectionMode ?st = BestN"
    "1 \<le> bestN (selectionSettings ?st)"
    by (simp_all add: initial_state_def)
  from bestN_selection [OF h] obtain r where
    r: "getSelectedFrameIndices ?st = Some r"
       "\<forall>i\<in>set r. \<forall>j\<in>{0..<int (length (frames ?res))} - set r.
           outranks (map sharpness (frames ?res)) i j"
    by blast
  have run: "getSelectedFrameIndices ?st = Some [1, 3]"
    by code_simp
  with r(1) have r_eq: "r = [1, 3]" by simp
  have "3 \<in> set r" "5 \<in> {0..<int (length (frames ?res))} - set r"
    by (simp_all add: r_eq len)
  with r(2) have "outranks (map sharpness (frames ?res)) 3 5"
    by blast
  then have rank: "outranks ?scores 3 5"
    by (simp only: scores)
  have h50: "analysisResult ?st50 = Some ?res" "selectionMode ?st50 = BestN"
    "1 \<le> bestN (selectionSettings ?st50)"
    by (simp_all add: initial_state_def)
  have "int (length (frames ?res)) \<le> bestN (selectionSettings ?st50)"
    by (simp add: len initial_state_def)
  with bestN_selection [OF h50] have "getSelectedFrameIndices ?st50 = Some (map int [0..<length (frames ?res)])"
    by blast
  then have "getSelectedFrameIndices ?st50 = Some [0, 1, 2, 3, 4, 5]"
    by (simp add: len upt_conv_Cons)
  with run rank show ?thesis by simp
qed

text \<open>
  C7. TopPercentage mode returns exactly what BestN mode returns for
  \<open>n = ceil(total * percentage / 100)\<close>, and never more indices than there are frames; for
  a percentage from 1 to 100 it returns exactly that many.
\<close>

theorem topPercentage_is_bestN:
  assumes "analysisResult st = Some res" and "selectionMode st = TopPercentage"
  shows "getSelectedFrameIndices st =
           getSelectedFrameIndices
             (st\<lparr>selectionMode := BestN,
                 selectionSettings := (selectionSettings st)
                   \<lparr>bestN := \<lceil>real (length (frames res)) *
                               real_of_int (topPercentage (selectionSettings st)) / 100\<rceil>\<rparr>\<rparr>) \<and>
         (\<exists>r. getSelectedFrameIndices st = Some r \<and> length r \<le> length (frames res) \<and>
              (1 \<le> topPercentage (selectionSettings st) \<and>
               topPercentage (selectionSettings st) \<le> 100 \<longrightarrow>
               int (length r) = \<lceil>real (length (frames res)) *
                                  real_of_int (topPercentage (selectionSettings st)) / 100\<rceil>))"
proof -
  let ?scores = "map sharpness (frames res)"
  let ?pct = "topPercentage (selectionSettings st)"
  let ?count = "\<lceil>real (length (frames res)) * real_of_int ?pct / 100\<rceil>"
  let ?r = "select_bestN ?scores ?count"
  have count: "percentage_count (length (frames res)) ?pct = ?count"
    by (simp add: percentage_count_def)
  have top: "getSelectedFrameIndices st = Some ?r"
    using gsfi_topPercentage [OF assms] by (simp only: select_topPercentage_bestN count)
  have "getSelectedFrameIndices
      (st\<lparr>selectionMode := BestN, selectionSettings := (selectionSettings st)\<lparr>bestN := ?count\<rparr>\<rparr>)
      = Some ?r"
    using assms(1) by (simp add: gsfi_bestN)
  with top have same: "getSelectedFrameIndices st = getSelectedFrameIndices
      (st\<lparr>selectionMode := BestN, selectionSettings := (selectionSettings st)\<lparr>bestN := ?count\<rparr>\<rparr>)"
    by simp
  have "distinct ?r"
    using select_bestN_sorted [of ?scores ?count] strict_sorted_iff by blast
  then have "card (set ?r) = length ?r"
    by (rule distinct_card)
  moreover have "card (set ?r) \<le> card {0..<int (length ?scores)}"
    by (intro card_mono select_bestN_subset) simp
  ultimately have bound: "length ?r \<le> length (frames res)"
    by simp
  have exact: "int (length ?r) = ?count" if "1 \<le> ?pct \<and> ?pct \<le> 100"
  proof -
    define c where "c = ?count"
    have pct: "0 \<le> ?pct" "?pct \<le> 100" using that by simp_all
    have "0 \<le> percentage_count (length (frames res)) ?pct"
      "percentage_count (length (frames res)) ?pct \<le> int (length (frames res))"
      using pct by (rule percentage_count_bounds)+
    then have c: "0 \<le> c" "c \<le> int (length (frames res))"
      unfolding count c_def by this+
    have "length (select_bestN ?scores c) = min (nat c) (length ?scores)"
      using c(1) by (rule select_bestN_length)
    with c have "int (length (select_bestN ?scores c)) = c"
      by simp
    then show ?thesis
      unfolding c_def .
  qed
  from same top bound exact show ?thesis by blast
qed

theorem topPercentage_is_bestN_witness:
  "getSelectedFrameIndices
     (initial_state\<lparr>analysisResult := Some (analysis_of [3, 1, 4, 1, 5, 9, 2, 6, 5, 3, 5]),
        selectionMode := TopPercentage\<rparr>) = Some [5, 7] \<and>
   getSelectedFrameIndices
     (initial_state\<lparr>analysisResult := Some (analysis_of [3, 1, 4, 1, 5, 9, 2, 6, 5, 3, 5]),
        selectionMode := BestN,
        selectionSettings := (selectionSettings initial_state)\<lparr>bestN := 2\<rparr>\<rparr>) = Some [5, 7]"
proof -
  let ?res = "analysis_of [3, 1, 4, 1, 5, 9, 2, 6, 5, 3, 5]"
  let ?st = "initial_state\<lparr>analysisResult := Some ?res, selectionMode := TopPercentage\<rparr>"
  have h: "analysisResult ?st = Some ?res" "selectionMode ?st = TopPercentage"
    by (simp_all add: initial_state_def)
  have count: "\<lceil>real (length (frames ?res)) *
      real_of_int (topPercentage (selectionSettings ?st)) / 100\<rceil> = 2"
    by (simp add: initial_state_def analysis_of_def with_idx_def)
  have run: "getSelectedFrameIndices ?st = Some [5, 7]"
    by code_simp
  have "getSelectedFrameIndices ?st = getSelectedFrameIndices
      (?st\<lparr>selectionMode := BestN, selectionSettings := (selectionSettings ?st)\<lparr>bestN := 2\<rparr>\<rparr>)"
    using topPercentage_is_bestN [OF h] by (simp only: count)
  with run show ?thesis
    by (simp add: initial_state_def)
qed

section \<open>Manual mode, and all modes together\<close>

lemma gsfi_manual:
  "analysisResult st = Some res \<Longrightarrow> selectionMode st = Manual \<Longrightarrow>
   getSelectedFrameIndices st = Some (select_manual (manuallySelectedFrames st))"
  by (simp add: getSelectedFrameIndices_def)

lemma select_manual_sorted: "sorted_wrt (<) (select_manual manual)"
  unfolding select_manual_def by (rule strict_sorted_sort) simp

lemma select_manual_eq:
  "select_manual manual = sorted_list_of_set (set (list_of_dlist manual))"
  by (simp add: select_manual_def sort_cmp_int sorted_list_of_set_sort_remdups)

lemma select_manual_Nil_iff: "select_manual manual = [] \<longleftrightarrow> manual = Dlist.empty"
proof -
  have "select_manual manual = [] \<longleftrightarrow> list_of_dlist manual = []"
    by (metis length_0_conv length_sort_cmp select_manual_def)
  also have "\<dots> \<longleftrightarrow> manual = Dlist.empty"
    by (metis Dlist.empty_def Dlist_list_of_dlist list_of_dlist_empty)
  finally show ?thesis .
qed

lemma select_threshold_sorted: "sorted_wrt (<) (select_threshold fs thr d mf)"
proof (cases "max_frames_applies mf (length (threshold_candidates fs thr d))")
  case True
  then show ?thesis
    using top_slice_sorted [OF idx_kept_frames, of sharpness fs thr d "the mf"]
    by (simp add: select_threshold_eq)
next
  case False
  then show ?thesis
    by (simp add: select_threshold_eq sorted_threshold_candidates)
qed

lemma select_topPercentage_sorted: "sorted_wrt (<) (select_topPercentage len scores pct)"
  by (simp only: select_topPercentage_bestN select_bestN_sorted)

lemma select_batch_sorted:
  assumes "1 \<le> bSize" and "0 \<le> bBuffer"
  shows "\<exists>r. select_batch scores bSize bBuffer = Some r \<and> sorted_wrt (<) r"
proof -
  from select_batch_windows [OF assms, of scores] obtain r where
    "select_batch scores bSize bBuffer = Some (map int r)" "sorted_wrt (<) r"
    by blast
  then show ?thesis
    by (intro exI [of _ "map int r"]) (simp add: sorted_wrt_map)
qed

text \<open>On an empty sequence of frames.\<close>

lemma select_batch_empty: "select_batch [] bSize bBuffer = Some []"
proof -
  have "batch_loop [] bSize bBuffer 0 [] = Some []"
    by (subst batch_loop.simps) simp
  then show ?thesis
    by (simp add: select_batch_def sort_cmp_def)
qed

lemma slice_Nil: "slice [] a b = []"
  by (simp add: slice_def Let_def)

lemma select_bestN_empty: "select_bestN [] n = []"
  by (simp add: select_bestN_def with_idx_def sort_cmp_def slice_Nil)

lemma select_threshold_empty: "select_threshold [] thr d mf = []"
  by (simp add: select_threshold_def with_idx_def sort_cmp_def slice_Nil Let_def)

section \<open>Claims about all five modes\<close>

text \<open>
  C2. For every analysis result and each of the five policies (Batch with its batch size
  of at least 1 and buffer of at least 0), the selection function returns, and the indices
  it returns are strictly increasing, hence without duplicates.
\<close>

theorem selection_strictly_increasing:
  assumes "selectionMode st = Batch \<longrightarrow>
             1 \<le> batchSize (selectionSettings st) \<and> 0 \<le> batchBuffer (selectionSettings st)"
  shows "\<exists>r. getSelectedFrameIndices st = Some r \<and> sorted_wrt (<) r \<and> distinct r"
proof -
  have "\<exists>r. getSelectedFrameIndices st = Some r \<and> sorted_wrt (<) r"
  proof (cases "analysisResult st")
    case None
    then show ?thesis by (simp add: getSelectedFrameIndices_def)
  next
    case (Some res)
    show ?thesis
    proof (cases "selectionMode st")
      case Threshold
      with Some show ?thesis
        by (simp add: gsfi_threshold select_threshold_sorted)
    next
      case Batch
      with assms have "1 \<le> batchSize (selectionSettings st)" "0 \<le> batchBuffer (selectionSettings st)"
        by simp_all
      from select_batch_sorted [OF this] show ?thesis
        using gsfi_batch [OF Some Batch] by simp
    next
      case BestN
      with Some show ?thesis
        by (simp add: gsfi_bestN select_bestN_sorted)
    next
      case TopPercentage
      with Some show ?thesis
        by (simp add: gsfi_topPercentage select_topPercentage_sorted)
    next
      case Manual
      with Some show ?thesis
        by (simp add: gsfi_manual select_manual_sorted)
    qed
  qed
  then show ?thesis
    using strict_sorted_iff by blast
qed

theorem selection_strictly_increasing_witness:
  "getSelectedFrameIndices
     (initial_state\<lparr>analysisResult := Some (analysis_of [3, 1, 4, 1, 5, 9, 2, 6, 5, 3]),
        selectionMode := Batch\<rparr>) = Some [2, 5, 8] \<and>
   sorted_wrt (<) [2, 5, 8 :: int] \<and> distinct [2, 5, 8 :: int]"
proof -
  let ?st = "initial_state\<lparr>analysisResult := Some (analysis_of [3, 1, 4, 1, 5, 9, 2, 6, 5, 3]),
      selectionMode := Batch\<rparr>"
  have "selectionMode ?st = Batch \<longrightarrow>
      1 \<le> batchSize (selectionSettings ?st) \<and> 0 \<le> batchBuffer (selectionSettings ?st)"
    by (simp add: initial_state_def)
  from selection_strictly_increasing [OF this] obtain r where
    r: "getSelectedFrameIndices ?st = Some r" "sorted_wrt (<) r" "distinct r"
    by blast
  have run: "getSelectedFrameIndices ?st = Some [2, 5, 8]"
    by code_simp
  with r(1) have "r = [2, 5, 8]" by simp
  with r(2,3) run show ?thesis by simp
qed

text \<open>
  C6, as stated: on an empty analysis result every policy returns the empty selection. In
  Manual mode the caller's set is returned whatever the analysis result holds.
\<close>

theorem empty_analysis_counterexample:
  "frames (analysis_of []) = [] \<and>
   getSelectedFrameIndices
     (initial_state\<lparr>analysisResult := Some (analysis_of []), selectionMode := Manual,
        manuallySelectedFrames := Dlist.insert 3 Dlist.empty\<rparr>) = Some [3]"
  by code_simp

text \<open>
  C6, amended. On an empty analysis result the selection function returns without an error
  for every policy and all parameters; Threshold, Batch, BestN and TopPercentage return the
  empty selection; Manual returns the caller's set in ascending order, which is empty only
  when that set is empty.
\<close>

theorem empty_analysis_selection:
  assumes "analysisResult st = Some res" and "frames res = []"
  shows "(selectionMode st \<noteq> Manual \<longrightarrow> getSelectedFrameIndices st = Some []) \<and>
         (selectionMode st = Manual \<longrightarrow>
            getSelectedFrameIndices st =
              Some (sorted_list_of_set (set (list_of_dlist (manuallySelectedFrames st))))) \<and>
         (getSelectedFrameIndices st = Some [] \<longleftrightarrow>
            selectionMode st \<noteq> Manual \<or> manuallySelectedFrames st = Dlist.empty)"
proof -
  have others: "getSelectedFrameIndices st = Some []" if "selectionMode st \<noteq> Manual"
  proof (cases "selectionMode st")
    case Threshold
    then show ?thesis
      using assms by (simp add: gsfi_threshold select_threshold_empty)
  next
    case Batch
    then show ?thesis
      using assms by (simp add: gsfi_batch select_batch_empty)
  next
    case BestN
    then show ?thesis
      using assms by (simp add: gsfi_bestN select_bestN_empty)
  next
    case TopPercentage
    then show ?thesis
      using assms
      by (simp add: gsfi_topPercentage select_topPercentage_bestN select_bestN_empty)
  next
    case Manual
    with that show ?thesis by simp
  qed
  have manual: "getSelectedFrameIndices st = Some (select_manual (manuallySelectedFrames st))"
    if "selectionMode st = Manual"
    using assms(1) that by (rule gsfi_manual)
  have "getSelectedFrameIndices st = Some [] \<longleftrightarrow>
      selectionMode st \<noteq> Manual \<or> manuallySelectedFrames st = Dlist.empty"
  proof (cases "selectionMode st = Manual")
    case True
    then show ?thesis
      using manual by (simp add: select_manual_Nil_iff)
  next
    case False
    then show ?thesis
      using others by simp
  qed
  with others manual show ?thesis
    by (simp add: select_manual_eq)
qed

theorem empty_analysis_selection_witness:
  "getSelectedFrameIndices
     (initial_state\<lparr>analysisResult := Some (analysis_of []), selectionMode := Batch,
        selectionSettings := (selectionSettings initial_state)\<lparr>batchSize := 0, batchBuffer := 0\<rparr>\<rparr>)
     = Some []"
proof -
  let ?st = "initial_state\<lparr>analysisResult := Some (analysis_of []), selectionMode := Batch,
      selectionSettings := (selectionSettings initial_state)\<lparr>batchSize := 0, batchBuffer := 0\<rparr>\<rparr>"
  have h: "analysisResult ?st = Some (analysis_of [])" "frames (analysis_of []) = []"
    by (simp_all add: initial_state_def analysis_of_def with_idx_def)
  have "selectionMode ?st \<noteq> Manual"
    by (simp add: initial_state_def)
  with empty_analysis_selection [OF h] show ?thesis
    by blast
qed

section \<open>Claim about Manual mode\<close>

text \<open>
  C9. Manual mode returns the caller's index set in ascending order, without duplicates,
  and does not check the indices against the analysis result: an index of the set that
  is at or beyond the number of frames is part of the returned selection, and the frame
  looked up for it when the export is prepared is undefined.
\<close>

theorem manual_selection_unchecked:
  assumes "analysisResult st = Some res" and "selectionMode st = Manual"
  shows "\<exists>r. getSelectedFrameIndices st = Some r \<and>
           r = sorted_list_of_set (set (list_of_dlist (manuallySelectedFrames st))) \<and>
           (\<forall>idx\<in>set (list_of_dlist (manuallySelectedFrames st)).
              int (length (frames res)) \<le> idx \<longrightarrow>
              idx \<in> set r \<and> at_index (frames res) idx = None \<and>
              None \<in> set (customResult_frames res r))"
proof -
  let ?r = "select_manual (manuallySelectedFrames st)"
  have set_r: "set ?r = set (list_of_dlist (manuallySelectedFrames st))"
    by (simp add: select_manual_def set_sort_cmp)
  have "idx \<in> set ?r \<and> at_index (frames res) idx = None \<and> None \<in> set (customResult_frames res ?r)"
    if "idx \<in> set (list_of_dlist (manuallySelectedFrames st))" "int (length (frames res)) \<le> idx"
    for idx
  proof -
    have "idx \<in> set ?r" using that(1) set_r by simp
    moreover have "at_index (frames res) idx = None"
      using that(2) by (simp add: at_index_def)
    ultimately show ?thesis
      unfolding customResult_frames_def by (metis image_eqI set_map)
  qed
  then show ?thesis
    using gsfi_manual [OF assms] select_manual_eq by blast
qed

theorem manual_selection_unchecked_witness:
  "getSelectedFrameIndices
     (initial_state\<lparr>analysisResult := Some (analysis_of [4, 7]), selectionMode := Manual,
        manuallySelectedFrames := Dlist.insert 1 (Dlist.insert 5 Dlist.empty)\<rparr>) = Some [1, 5] \<and>
   int (length (frames (analysis_of [4, 7]))) \<le> 5 \<and>
   at_index (frames (analysis_of [4, 7])) 5 = None \<and>
   None \<in> set (customResult_frames (analysis_of [4, 7]) [1, 5])"
proof -
  let ?res = "analysis_of [4, 7]"
  let ?st = "initial_state\<lparr>analysisResult := Some ?res, selectionMode := Manual,
      manuallySelectedFrames := Dlist.insert 1 (Dlist.insert 5 Dlist.empty)\<rparr>"
  have h: "analysisResult ?st = Some ?res" "selectionMode ?st = Manual"
    by (simp_all add: initial_state_def)
  have manual: "list_of_dlist (manuallySelectedFrames ?st) = [1, 5]"
    by (simp add: initial_state_def Dlist.insert_def)
  have len: "int (length (frames ?res)) \<le> 5"
    by (simp add: analysis_of_def with_idx_def)
  from manual_selection_unchecked [OF h] obtain r where
    r: "getSelectedFrameIndices ?st = Some r"
       "\<forall>idx\<in>set (list_of_dlist (manuallySelectedFrames ?st)).
          int (length (frames ?res)) \<le> idx \<longrightarrow>
          idx \<in> set r \<and> at_index (frames ?res) idx = None \<and>
          None \<in> set (customResult_frames ?res r)"
    by blast
  have run: "getSelectedFrameIndices ?st = Some [1, 5]"
    by code_simp
  with r(1) have r_eq: "r = [1, 5]" by simp
  have "5 \<in> set (list_of_dlist (manuallySelectedFrames ?st))"
    by (simp only: manual) simp
  with r(2) len have "at_index (frames ?res) 5 = None \<and> None \<in> set (customResult_frames ?res r)"
    by blast
  with run len r_eq show ?thesis by simp
qed

end
